theory Spec2Isabelle
  imports Main
begin

section \<open>Strings of the source language\<close>

text \<open>
  A JavaScript string is a sequence of 16-bit code units. The model takes the code units
  U+0000 .. U+00FF (one \<^typ>\<open>char\<close> each), so a \<^typ>\<open>string\<close> is a JavaScript string
  over that alphabet, \<open>length\<close> is \<open>.length\<close> and \<open>of_char\<close> is the code unit.
\<close>

definition isSpace :: "char \<Rightarrow> bool" where
  \<comment> \<open>the class \<open>\s\<close>, which is also what \<open>trim()\<close> strips: TAB, LF, VT, FF, CR, SP, NBSP\<close>
  "isSpace c = (let n = (of_char c :: nat) in (9 \<le> n \<and> n \<le> 13) \<or> n = 32 \<or> n = 160)"

definition isWordChar :: "char \<Rightarrow> bool" where
  \<comment> \<open>the class \<open>\w\<close>: \<open>[A-Za-z0-9_]\<close>\<close>
  "isWordChar c = (let n = (of_char c :: nat) in
     (48 \<le> n \<and> n \<le> 57) \<or> (65 \<le> n \<and> n \<le> 90) \<or> n = 95 \<or> (97 \<le> n \<and> n \<le> 122))"

definition toLowerChar :: "char \<Rightarrow> char" where
  \<comment> \<open>\<open>A-Z\<close> and the Latin-1 capitals U+00C0 .. U+00DE (without the sign U+00D7)\<close>
  "toLowerChar c = (let n = (of_char c :: nat) in
     if (65 \<le> n \<and> n \<le> 90) \<or> (192 \<le> n \<and> n \<le> 222 \<and> n \<noteq> 215) then char_of (n + 32) else c)"

definition toLowerCase :: "string \<Rightarrow> string" where
  "toLowerCase s = map toLowerChar s"

definition toUpperChar :: "char \<Rightarrow> string" where
  \<comment> \<open>\<open>a-z\<close> and the Latin-1 small letters; U+00DF becomes \<open>SS\<close>. The images of U+00B5 and
      U+00FF lie outside the alphabet and are left in place: the source only compares
      upper-cased text with text over \<open>[A-Z0-9_ ]\<close>, which neither they nor their images meet.\<close>
  "toUpperChar c = (let n = (of_char c :: nat) in
     if (97 \<le> n \<and> n \<le> 122) \<or> (224 \<le> n \<and> n \<le> 254 \<and> n \<noteq> 247) then [char_of (n - 32)]
     else if n = 223 then ''SS'' else [c])"

definition toUpperCase :: "string \<Rightarrow> string" where
  "toUpperCase s = concat (map toUpperChar s)"

definition trim :: "string \<Rightarrow> string" where
  "trim s = rev (dropWhile isSpace (rev (dropWhile isSpace s)))"

definition startsWith :: "string \<Rightarrow> string \<Rightarrow> bool" where
  \<comment> \<open>\<open>s.startsWith(p)\<close>\<close>
  "startsWith s p = (take (length p) s = p)"

fun includes_str :: "string \<Rightarrow> string \<Rightarrow> bool" where
  \<comment> \<open>\<open>s.includes(p)\<close>: \<open>p\<close> occurs in \<open>s\<close> as a substring\<close>
  "includes_str [] p = (p = [])"
| "includes_str (c # cs) p = (startsWith (c # cs) p \<or> includes_str cs p)"

fun splitWs :: "string \<Rightarrow> string list" where
  \<comment> \<open>\<open>s.split(/\s+/)\<close>: the pieces between maximal runs of white space; a run at either end
      leaves an empty piece there, and the empty string gives one empty piece\<close>
  "splitWs [] = [[]]"
| "splitWs (c # cs) =
     (if isSpace c then (if cs \<noteq> [] \<and> isSpace (hd cs) then splitWs cs else [] # splitWs cs)
      else (case splitWs cs of [] \<Rightarrow> [[c]] | w # ws \<Rightarrow> (c # w) # ws))"

fun joinSp :: "string list \<Rightarrow> string" where
  \<comment> \<open>\<open>ws.join(' ')\<close>\<close>
  "joinSp [] = []"
| "joinSp [w] = w"
| "joinSp (w # v # ws) = w @ CHR '' '' # joinSp (v # ws)"

fun strLess :: "string \<Rightarrow> string \<Rightarrow> bool" where
  \<comment> \<open>the default order of \<open>sort()\<close> on strings: by code units, a proper prefix first\<close>
  "strLess [] [] = False"
| "strLess [] (d # ds) = True"
| "strLess (c # cs) [] = False"
| "strLess (c # cs) (d # ds) =
     ((of_char c :: nat) < of_char d \<or> (c = d \<and> strLess cs ds))"

fun insertStr :: "string \<Rightarrow> string list \<Rightarrow> string list" where
  "insertStr x [] = [x]"
| "insertStr x (y # ys) = (if strLess y x then y # insertStr x ys else x # y # ys)"

definition sortStrings :: "string list \<Rightarrow> string list" where
  \<comment> \<open>\<open>xs.sort()\<close>: the ascending arrangement (equal strings are indistinguishable)\<close>
  "sortStrings xs = foldr insertStr xs []"

section \<open>cleanCompanyName\<close>

text \<open>
  The three \<open>suffixes\<close> patterns have the shape \<open>\b(?:a1|...|an)\b\<close> with the flag \<open>g\<close>,
  every alternative a literal, some followed by an optional dot. \<open>replace(p, '')\<close> scans
  the text from the left; at each position it tries the alternatives in order, and the
  first one that matches with a word boundary on both sides is deleted, the scan going on
  behind it. Boundaries are those of the text being scanned, not of what has been kept.
\<close>

datatype alt = Lit string | LitDot string

definition suffixes1 :: "alt list" where
  "suffixes1 = [LitDot ''ltd'', Lit ''limited'', LitDot ''inc'', Lit ''incorporated'',
     LitDot ''corp'', Lit ''corporation'', Lit ''llc'', Lit ''plc'', LitDot ''pvt'',
     Lit ''private'']"

definition suffixes2 :: "alt list" where
  "suffixes2 = [LitDot ''co'', Lit ''company'', Lit ''group'', Lit ''holding'',
     Lit ''holdings'', Lit ''industries'', Lit ''international'', Lit ''global'']"

definition suffixes3 :: "alt list" where
  "suffixes3 = [Lit ''&'', Lit ''and'', Lit ''amp'']"

definition headOpt :: "string \<Rightarrow> char option" where
  "headOpt s = (case s of [] \<Rightarrow> None | c # _ \<Rightarrow> Some c)"

definition isWordOpt :: "char option \<Rightarrow> bool" where
  "isWordOpt x = (case x of None \<Rightarrow> False | Some c \<Rightarrow> isWordChar c)"

definition wordBoundary :: "char option \<Rightarrow> char option \<Rightarrow> bool" where
  \<comment> \<open>\<open>\b\<close> between the character before (if any) and the character after (if any)\<close>
  "wordBoundary before after = (isWordOpt before \<noteq> isWordOpt after)"

fun matchAlt :: "alt \<Rightarrow> string \<Rightarrow> nat option" where
  \<comment> \<open>the length of the match of one alternative followed by \<open>\b\<close> at the head of \<open>s\<close>;
      the optional dot is greedy and given back when no boundary follows it\<close>
  "matchAlt (Lit w) s =
     (if startsWith s w \<and> wordBoundary (Some (last w)) (headOpt (drop (length w) s))
      then Some (length w) else None)"
| "matchAlt (LitDot w) s =
     (if startsWith s w then
        (let r = drop (length w) s in
         if headOpt r = Some (CHR ''.'') \<and> wordBoundary (Some (CHR ''.'')) (headOpt (tl r))
         then Some (length w + 1)
         else if wordBoundary (Some (last w)) (headOpt r) then Some (length w)
         else None)
      else None)"

fun firstAlt :: "alt list \<Rightarrow> string \<Rightarrow> nat option" where
  "firstAlt [] s = None"
| "firstAlt (a # as) s = (case matchAlt a s of Some n \<Rightarrow> Some n | None \<Rightarrow> firstAlt as s)"

definition matchAt :: "alt list \<Rightarrow> char option \<Rightarrow> string \<Rightarrow> nat option" where
  \<comment> \<open>the match of the whole pattern at the head of \<open>s\<close>, \<open>before\<close> being the character
      in front of it\<close>
  "matchAt alts before s = (if wordBoundary before (headOpt s) then firstAlt alts s else None)"

fun removeAll_re :: "alt list \<Rightarrow> char option \<Rightarrow> nat \<Rightarrow> string \<Rightarrow> string" where
  \<comment> \<open>\<open>s.replace(p, '')\<close>; \<open>k\<close> counts the characters of the current match still to delete\<close>
  "removeAll_re alts before k [] = []"
| "removeAll_re alts before (Suc k) (c # cs) = removeAll_re alts (Some c) k cs"
| "removeAll_re alts before 0 (c # cs) =
     (case matchAt alts before (c # cs) of
        Some n \<Rightarrow> removeAll_re alts (Some c) (n - 1) cs
      | None \<Rightarrow> c # removeAll_re alts (Some c) 0 cs)"

definition removeSuffixes :: "string \<Rightarrow> string" where
  \<comment> \<open>the loop over \<open>suffixes\<close>\<close>
  "removeSuffixes s =
     removeAll_re suffixes3 None 0 (removeAll_re suffixes2 None 0 (removeAll_re suffixes1 None 0 s))"

definition replacePunct :: "string \<Rightarrow> string" where
  \<comment> \<open>\<open>replace(/[^\w\s]/g, ' ')\<close>\<close>
  "replacePunct s = map (\<lambda>c. if isWordChar c \<or> isSpace c then c else CHR '' '') s"

fun collapseWs_from :: "bool \<Rightarrow> string \<Rightarrow> string" where
  \<comment> \<open>\<open>replace(/\s+/g, ' ')\<close>; the flag says that the character before belongs to a run of
      white space, which has already produced its space\<close>
  "collapseWs_from inRun [] = []"
| "collapseWs_from inRun (c # cs) =
     (if isSpace c then (if inRun then collapseWs_from True cs
                         else CHR '' '' # collapseWs_from True cs)
      else c # collapseWs_from False cs)"

definition collapseWs :: "string \<Rightarrow> string" where
  "collapseWs s = collapseWs_from False s"

definition cleanSteps :: "string \<Rightarrow> string" where
  \<comment> \<open>lines 23 to 39, from the lower-cased name\<close>
  "cleanSteps lowered = trim (collapseWs (replacePunct (removeSuffixes (trim lowered))))"

type_synonym cleanNameCache = "string \<rightharpoonup> string"

definition cleanCompanyName :: "cleanNameCache \<Rightarrow> string option \<Rightarrow> string option \<times> cleanNameCache" where
  \<comment> \<open>\<open>None\<close> is \<open>null\<close>, as argument and as result; the cache is passed in and returned\<close>
  "cleanCompanyName cache name =
     (case name of
        None \<Rightarrow> (None, cache)
      | Some nm \<Rightarrow>
          if nm = [] \<or> trim nm = [] then (None, cache)
          else
            (let cacheKey = toLowerCase nm in
             case cache cacheKey of
               Some cached \<Rightarrow> (Some cached, cache)
             | None \<Rightarrow>
                 (let cleanName = cleanSteps cacheKey
                  in (Some cleanName, cache(cacheKey \<mapsto> cleanName)))))"

section \<open>FuzzyMatcher\<close>

text \<open>
  \<open>ratio\<close> fills the matrix row by row; row \<open>i\<close> depends on row \<open>i - 1\<close> only, so the
  model keeps one row. \<open>fillRow\<close> computes the entries \<open>matrix[i][j]\<close> for \<open>j \<ge> 1\<close> from
  left to right: \<open>diag\<close> is \<open>matrix[i-1][j-1]\<close>, \<open>left\<close> is \<open>matrix[i][j-1]\<close> and the list
  holds \<open>matrix[i-1][j]\<close>, \<open>matrix[i-1][j+1]\<close>, ...
\<close>

fun fillRow :: "char \<Rightarrow> string \<Rightarrow> nat \<Rightarrow> nat \<Rightarrow> nat list \<Rightarrow> nat list" where
  "fillRow c [] diag left ups = []"
| "fillRow c (d # ds) diag left [] = []"
| "fillRow c (d # ds) diag left (up # ups) =
     (let cost = (if c = d then 0 else 1);
          v = min (up + 1) (min (left + 1) (diag + cost))
      in v # fillRow c ds up v ups)"

fun nextRow :: "nat \<Rightarrow> char \<Rightarrow> string \<Rightarrow> nat list \<Rightarrow> nat list" where
  \<comment> \<open>row \<open>i\<close> from row \<open>i - 1\<close>; \<open>matrix[i][0] = i\<close>\<close>
  "nextRow i c s2 [] = [i]"
| "nextRow i c s2 (p # ps) = i # fillRow c s2 p i ps"

fun levRows :: "nat \<Rightarrow> string \<Rightarrow> string \<Rightarrow> nat list \<Rightarrow> nat list" where
  \<comment> \<open>the outer loop: \<open>i\<close> is the index of the next row, the first list what is left of \<open>s1\<close>\<close>
  "levRows i [] s2 row = row"
| "levRows i (c # cs) s2 row = levRows (Suc i) cs s2 (nextRow i c s2 row)"

definition levenshtein :: "string \<Rightarrow> string \<Rightarrow> nat" where
  \<comment> \<open>\<open>matrix[len1][len2]\<close>; row 0 is \<open>0, 1, ..., len2\<close>\<close>
  "levenshtein s1 s2 = last (levRows 1 s1 s2 [0 ..< Suc (length s2)])"

text \<open>
  Line 76 computes \<open>((maxLen - distance) / maxLen) * 100\<close> in doubles and rounds the result.
  A double is kept as a pair \<open>(s, p)\<close> that stands for \<open>s / p\<close>, \<open>p\<close> a power of two and
  \<open>s\<close> a significand of at most 53 bits; quotient and product are the exact values rounded
  to the nearest such number, a tie going to the even significand, as IEEE 754 has it.
  All values here lie between \<open>1 / maxLen\<close> and 100, far inside the normal range. The
  numbers \<open>4503599627370496\<close> and \<open>9007199254740992\<close> are \<open>2^52\<close> and \<open>2^53\<close>.
\<close>

function scaleUp :: "int \<Rightarrow> int \<Rightarrow> int \<Rightarrow> int \<times> int" where
  \<comment> \<open>doubles \<open>n\<close> and \<open>p\<close> until \<open>n\<close> reaches \<open>d\<close>\<close>
  "scaleUp n d p = (if n \<le> 0 \<or> d \<le> n then (n, p) else scaleUp (2 * n) d (2 * p))"
  by pat_completeness auto
termination
  by (relation "measure (\<lambda>(n, d, p). nat (d - n))") auto

definition roundHalfEven :: "int \<Rightarrow> int \<Rightarrow> int" where
  \<comment> \<open>the integer nearest to \<open>n / d\<close>, the even one of two that are equally near\<close>
  "roundHalfEven n d =
     (let f = n div d; r = n mod d
      in if 2 * r < d then f else if d < 2 * r then f + 1 else if even f then f else f + 1)"

definition doubleDiv :: "int \<Rightarrow> int \<Rightarrow> int \<times> int" where
  \<comment> \<open>the double \<open>a / m\<close> for \<open>0 \<le> a \<le> m\<close> and \<open>0 < m\<close>: \<open>a\<close> is scaled by the power of two
      that brings the quotient into \<open>[2^52, 2^53)\<close>\<close>
  "doubleDiv a m =
     (case scaleUp a (m * 4503599627370496) 1 of (n, p) \<Rightarrow> (roundHalfEven n m, p))"

function scaleDown :: "int \<Rightarrow> int \<Rightarrow> int" where
  \<comment> \<open>the least power of two \<open>q' \<ge> q\<close> with \<open>n / q' < 2^53\<close>\<close>
  "scaleDown n q = (if q \<le> 0 \<or> n < 9007199254740992 * q then q else scaleDown n (2 * q))"
  by pat_completeness auto
termination
  by (relation "measure (\<lambda>(n, q). nat (n + 1 - 9007199254740992 * q))") auto

definition doubleTimes100 :: "int \<times> int \<Rightarrow> int \<times> int" where
  \<comment> \<open>the double \<open>x * 100\<close>\<close>
  "doubleTimes100 x =
     (case x of (s, p) \<Rightarrow>
        (let n = 100 * s; q = scaleDown n 1 in (roundHalfEven n q * q, p)))"

definition mathRound :: "int \<times> int \<Rightarrow> int" where
  \<comment> \<open>\<open>Math.round(x)\<close> for \<open>x \<ge> 0\<close>: the integer nearest to \<open>x\<close>, a half going up\<close>
  "mathRound x = (case x of (s, p) \<Rightarrow> (2 * s + p) div (2 * p))"

definition roundPercent :: "nat \<Rightarrow> nat \<Rightarrow> int" where
  \<comment> \<open>\<open>Math.round((a / m) * 100)\<close> for \<open>0 \<le> a \<le> m\<close> and \<open>0 < m\<close>. It is the exact quotient
      rounded, a half going up, except where the exact value is a half and the doubles
      fall short of it: \<open>(23 / 40) * 100\<close> is \<open>57.49999999999999\<close> and gives 57.\<close>
  "roundPercent a m = mathRound (doubleTimes100 (doubleDiv (int a) (int m)))"

definition ratio :: "string \<Rightarrow> string \<Rightarrow> int" where
  \<comment> \<open>\<open>distance\<close> is never more than \<open>maxLen\<close> (\<open>levenshtein_le\<close> below), so the difference
      of line 76 is the one of the natural numbers\<close>
  "ratio s1 s2 =
     (if s1 = [] \<or> s2 = [] then 0
      else
        (let len1 = length s1; len2 = length s2;
             distance = levenshtein s1 s2;
             maxLen = max len1 len2
         in roundPercent (maxLen - distance) maxLen))"

definition partialRatio :: "string \<Rightarrow> string \<Rightarrow> int" where
  "partialRatio s1 s2 =
     (if s1 = [] \<or> s2 = [] then 0
      else
        (let shorter = (if length s1 \<le> length s2 then s1 else s2);
             longer = (if length s1 > length s2 then s1 else s2)
         in fold (\<lambda>i bestRatio. max bestRatio (ratio shorter (take (length shorter) (drop i longer))))
              [0 ..< Suc (length longer - length shorter)] 0))"

definition tokenSortRatio :: "string \<Rightarrow> string \<Rightarrow> int" where
  "tokenSortRatio s1 s2 =
     (if s1 = [] \<or> s2 = [] then 0
      else
        (let sorted1 = joinSp (sortStrings (splitWs s1));
             sorted2 = joinSp (sortStrings (splitWs s2))
         in ratio sorted1 sorted2))"

definition newSet :: "string list \<Rightarrow> string list" where
  \<comment> \<open>\<open>new Set(xs)\<close>, as the list of its elements in insertion order\<close>
  "newSet xs = foldl (\<lambda>acc x. if x \<in> set acc then acc else acc @ [x]) [] xs"

definition tokenSetRatio :: "string \<Rightarrow> string \<Rightarrow> int" where
  "tokenSetRatio s1 s2 =
     (if s1 = [] \<or> s2 = [] then 0
      else
        (let tokens1 = newSet (splitWs s1);
             tokens2 = newSet (splitWs s2);
             intersection = filter (\<lambda>x. x \<in> set tokens2) tokens1;
             difference1 = filter (\<lambda>x. x \<notin> set tokens2) tokens1;
             difference2 = filter (\<lambda>x. x \<notin> set tokens1) tokens2;
             sortedIntersection = joinSp (sortStrings intersection);
             sorted1 = joinSp (sortStrings difference1);
             sorted2 = joinSp (sortStrings difference2);
             combined1 = trim (sortedIntersection @ '' '' @ sorted1);
             combined2 = trim (sortedIntersection @ '' '' @ sorted2)
         in ratio combined1 combined2))"

section \<open>The score of one candidate\<close>

fun abbrevLoop :: "string \<Rightarrow> string list \<Rightarrow> nat \<times> nat" where
  \<comment> \<open>lines 216 to 229: what the loop over \<open>keyWords\<close> adds to \<open>matchedWords\<close> and to
      \<open>significantMatches\<close>; it stops at the first key word that matches either way\<close>
  "abbrevLoop inputWord [] = (0, 0)"
| "abbrevLoop inputWord (keyWord # rest) =
     (if length inputWord \<ge> 3 \<and> startsWith keyWord inputWord
      then (1, if length inputWord > 3 then 1 else 0)
      else if length keyWord \<ge> 3 \<and> startsWith inputWord keyWord
      then (1, 0)
      else abbrevLoop inputWord rest)"

fun wordLoop :: "string list \<Rightarrow> string list \<Rightarrow> nat \<Rightarrow> nat \<Rightarrow> nat \<times> nat" where
  \<comment> \<open>lines 204 to 231, with \<open>matchedWords\<close> and \<open>significantMatches\<close> as accumulators\<close>
  "wordLoop [] keyWords matchedWords significantMatches = (matchedWords, significantMatches)"
| "wordLoop (inputWord # rest) keyWords matchedWords significantMatches =
     (if inputWord \<in> set keyWords
      then wordLoop rest keyWords (matchedWords + 1)
             (if length inputWord > 3 then significantMatches + 1 else significantMatches)
      else
        (case abbrevLoop inputWord keyWords of
           (dm, ds) \<Rightarrow> wordLoop rest keyWords (matchedWords + dm) (significantMatches + ds)))"

text \<open>
  The two ratios of lines 234 and 236 are quotients of small counts compared with
  \<open>0.8\<close>, \<open>0.7\<close>, \<open>0.5\<close> and \<open>0.3\<close>; the comparisons are written on the counts
  (\<open>m / t \<ge> 0.8\<close> as \<open>10 m \<ge> 8 t\<close>), which is what the double comparison decides for every
  count below \<open>2^50\<close>. A ratio whose denominator is 0 is 0 in the source.
\<close>

definition ratioAtLeast :: "nat \<Rightarrow> nat \<Rightarrow> nat \<Rightarrow> bool" where
  \<comment> \<open>\<open>(d > 0 ? n / d : 0) >= tenths / 10\<close>, for \<open>tenths > 0\<close>\<close>
  "ratioAtLeast n d tenths = (d > 0 \<and> 10 * n \<ge> tenths * d)"

definition scoreSteps :: "string \<Rightarrow> string list \<Rightarrow> string \<Rightarrow> string list \<Rightarrow> int" where
  \<comment> \<open>lines 188 to 277: the score before the acronym matching\<close>
  "scoreSteps cleanName inputWords cleanKey keyWords =
     (let baseScore = tokenSortRatio cleanName cleanKey;
          partialScore0 = partialRatio cleanName cleanKey;
          tokenSetScore = tokenSetRatio cleanName cleanKey;
          partialScore = (if length cleanKey \<le> 4 \<and> partialScore0 > 80
                          then min partialScore0 60 else partialScore0);
          score0 = max baseScore (max partialScore tokenSetScore);
          totalInputWords = length inputWords;
          (matchedWords, significantMatches) = wordLoop inputWords keyWords 0 0;
          significantWordsCount = length (filter (\<lambda>w. length w > 3) inputWords);
          score1 =
            (if ratioAtLeast matchedWords totalInputWords 8
                \<and> ratioAtLeast significantMatches significantWordsCount 5 then score0 + 40
             else if ratioAtLeast matchedWords totalInputWords 7 then score0 + 30
             else if ratioAtLeast matchedWords totalInputWords 5 then score0 + 15
             else score0);
          score2 = (if totalInputWords \<ge> 2 \<and> \<not> ratioAtLeast matchedWords totalInputWords 3
                    then score1 - 25 else score1);
          lenDiff = \<bar>int (length cleanName) - int (length cleanKey)\<bar>;
          score3 = (if lenDiff > 10 then score2 - min 20 lenDiff else score2);
          score4 =
            (if length inputWords > 0 \<and> length keyWords > 0 then
               (let firstWordScore = ratio (hd inputWords) (hd keyWords)
                in if firstWordScore < 60 then score3 - 20
                   else if firstWordScore \<ge> 90 then score3 + 10
                   else score3)
             else score3);
          score5 =
            (if length inputWords > 0 \<and> length keyWords > 0 then
               (if hd inputWords = hd keyWords then score4 + 25
                else if length (hd inputWords) \<ge> 3 \<and> startsWith (hd keyWords) (hd inputWords)
                then score4 + 20
                else if length (hd keyWords) \<ge> 3 \<and> startsWith (hd inputWords) (hd keyWords)
                then score4 + 15
                else score4)
             else score4)
      in score5)"

definition qualifyingWords :: "string list \<Rightarrow> string list" where
  \<comment> \<open>line 283: the key words kept for the acronym\<close>
  "qualifyingWords keyWords = filter (\<lambda>word. length word > 2) keyWords"

definition acronymOf :: "string list \<Rightarrow> string" where
  \<comment> \<open>lines 282 to 285\<close>
  "acronymOf keyWords = concat (map (\<lambda>word. toUpperCase [hd word]) (qualifyingWords keyWords))"

definition acronymAdjust :: "string list \<Rightarrow> string list \<Rightarrow> int \<Rightarrow> int" where
  \<comment> \<open>lines 280 to 312, from the score so far\<close>
  "acronymAdjust inputWords keyWords score =
     (if length keyWords \<ge> 2 then
        (let acronym = acronymOf keyWords in
         if length inputWords = 1 \<and> length (hd inputWords) \<ge> 3 then
           (let inputWord = toUpperCase (hd inputWords) in
            if inputWord = acronym then max (score + 50) 95
            else if includes_str acronym inputWord \<or> startsWith acronym inputWord then score + 30
            else if length inputWord \<ge> 3 \<and> length inputWord \<le> 5 then score - 15
            else score)
         else if length inputWords \<ge> 2 \<and> length (hd inputWords) \<ge> 3 then
           (let firstWord = toUpperCase (hd inputWords) in
            if firstWord = acronym then score + 45
            else if includes_str acronym firstWord \<or> startsWith acronym firstWord then score + 25
            else score)
         else score)
      else score)"

definition candidateScore :: "string \<Rightarrow> string list \<Rightarrow> string \<Rightarrow> int" where
  \<comment> \<open>lines 185 to 312: the value of \<open>score\<close> at line 314\<close>
  "candidateScore cleanName inputWords cleanKey =
     (let keyWords = splitWs cleanKey
      in acronymAdjust inputWords keyWords (scoreSteps cleanName inputWords cleanKey keyWords))"

section \<open>findTicker\<close>

text \<open>
  \<open>tickerDict\<close> is the list \<open>Object.entries(tickerDict)\<close>: the pairs of the caller's
  object in its iteration order, the keys distinct. The module's two caches are the state.
  A key of \<open>tickerCache\<close> is the text \<open>cleanName + ':' + JSON.stringify(sortedKeys)\<close>; the
  model keeps the two parts as a pair, which that text determines (a clean name has no
  colon, and \<open>JSON.stringify\<close> is injective on arrays of strings).
\<close>

type_synonym tickerDict = "(string \<times> string) list"

record caches =
  cleanNameCache :: "string \<rightharpoonup> string"
  tickerCache :: "string \<times> string list \<rightharpoonup> string"

definition minThreshold :: int where
  "minThreshold = 70"

fun exactLoop :: "cleanNameCache \<Rightarrow> string \<Rightarrow> tickerDict \<Rightarrow> string option \<times> cleanNameCache" where
  \<comment> \<open>strategy 1, lines 155 to 161: the ticker of the first entry whose clean key is the
      clean name\<close>
  "exactLoop cc cleanName [] = (None, cc)"
| "exactLoop cc cleanName ((key, ticker) # rest) =
     (case cleanCompanyName cc (Some key) of
        (cleanKey, cc') \<Rightarrow>
          if cleanKey = Some cleanName then (Some ticker, cc')
          else exactLoop cc' cleanName rest)"

fun directLoop :: "string \<Rightarrow> tickerDict \<Rightarrow> string option" where
  \<comment> \<open>strategy 1.5, lines 165 to 173\<close>
  "directLoop cleanName [] = None"
| "directLoop cleanName ((key, ticker) # rest) =
     (let keyUpper = toUpperCase key;
          inputUpper = toUpperCase cleanName
      in if includes_str keyUpper ('' '' @ inputUpper @ '' '')
            \<or> startsWith keyUpper (inputUpper @ '' '')
         then Some ticker
         else directLoop cleanName rest)"

fun fuzzyLoop ::
  "cleanNameCache \<Rightarrow> string \<Rightarrow> string list \<Rightarrow> string option \<Rightarrow> int \<Rightarrow> tickerDict
     \<Rightarrow> (string option \<times> int) \<times> cleanNameCache" where
  \<comment> \<open>strategy 2, lines 181 to 318, with \<open>bestMatch\<close> and \<open>bestScore\<close> as accumulators\<close>
  "fuzzyLoop cc cleanName inputWords bestMatch bestScore [] = ((bestMatch, bestScore), cc)"
| "fuzzyLoop cc cleanName inputWords bestMatch bestScore ((key, ticker) # rest) =
     (case cleanCompanyName cc (Some key) of
        (None, cc') \<Rightarrow> fuzzyLoop cc' cleanName inputWords bestMatch bestScore rest
      | (Some cleanKey, cc') \<Rightarrow>
          if cleanKey = [] then fuzzyLoop cc' cleanName inputWords bestMatch bestScore rest
          else
            (let score = candidateScore cleanName inputWords cleanKey
             in if score > bestScore \<and> score \<ge> minThreshold
                then fuzzyLoop cc' cleanName inputWords (Some key) score rest
                else fuzzyLoop cc' cleanName inputWords bestMatch bestScore rest))"

definition lookupTicker :: "tickerDict \<Rightarrow> string \<Rightarrow> string" where
  \<comment> \<open>\<open>tickerDict[bestMatch]\<close>; \<open>bestMatch\<close> is always a key of the object, and for a text
      that is no key (where the source would read \<open>undefined\<close>) the model gives the empty text\<close>
  "lookupTicker tickerDict key = (case map_of tickerDict key of Some t \<Rightarrow> t | None \<Rightarrow> [])"

definition searchTicker :: "cleanNameCache \<Rightarrow> string \<Rightarrow> tickerDict \<Rightarrow> string \<times> cleanNameCache" where
  \<comment> \<open>lines 152 to 329: the three strategies in turn. Each of them ends with
      \<open>tickerCache.set(cacheKey, x); return x\<close>, which \<open>findTicker\<close> below does with the
      value found here.\<close>
  "searchTicker cc cleanName tickerDict =
     (let inputWords = splitWs cleanName in
      case exactLoop cc cleanName tickerDict of
        (Some ticker, cc2) \<Rightarrow> (ticker, cc2)
      | (None, cc2) \<Rightarrow>
          (case (if length inputWords = 1 \<and> length cleanName \<ge> 3
                 then directLoop cleanName tickerDict else None) of
             Some ticker \<Rightarrow> (ticker, cc2)
           | None \<Rightarrow>
               (case fuzzyLoop cc2 cleanName inputWords None 0 tickerDict of
                  ((bestMatch, bestScore), cc3) \<Rightarrow>
                    if bestMatch \<noteq> None \<and> bestMatch \<noteq> Some []
                    then (lookupTicker tickerDict (the bestMatch), cc3)
                    else ([], cc3))))"

definition isSentinel :: "string \<Rightarrow> bool" where
  \<comment> \<open>the condition of lines 130 and 131\<close>
  "isSentinel companyName =
     (companyName = [] \<or> trim companyName = []
      \<or> includes_str companyName ''Cash'' \<or> includes_str companyName ''Equity'')"

definition tickerCacheKey :: "string \<Rightarrow> tickerDict \<Rightarrow> string \<times> string list" where
  \<comment> \<open>line 145\<close>
  "tickerCacheKey cleanName tickerDict = (cleanName, sortStrings (map fst tickerDict))"

definition findTicker :: "caches \<Rightarrow> string \<Rightarrow> tickerDict \<Rightarrow> string \<times> caches" where
  "findTicker st companyName tickerDict =
     (if isSentinel companyName then ([], st)
      else
        (case cleanCompanyName (cleanNameCache st) (Some companyName) of
           (None, cc1) \<Rightarrow> ([], st\<lparr>cleanNameCache := cc1\<rparr>)
         | (Some cleanName, cc1) \<Rightarrow>
             if cleanName = [] \<or> length cleanName \<le> 2 then ([], st\<lparr>cleanNameCache := cc1\<rparr>)
             else
               (let cacheKey = tickerCacheKey cleanName tickerDict in
                case tickerCache st cacheKey of
                  Some cached \<Rightarrow> (cached, st\<lparr>cleanNameCache := cc1\<rparr>)
                | None \<Rightarrow>
                    (case searchTicker cc1 cleanName tickerDict of
                       (result, cc2) \<Rightarrow>
                         (result, \<lparr>cleanNameCache = cc2,
                                   tickerCache = (tickerCache st)(cacheKey \<mapsto> result)\<rparr>)))))"

section \<open>Notions used in the statements\<close>

definition emptyCleanNameCache :: cleanNameCache where
  "emptyCleanNameCache = Map.empty"

definition emptyCaches :: caches where
  \<comment> \<open>the state when the module has just been loaded\<close>
  "emptyCaches = \<lparr>cleanNameCache = Map.empty, tickerCache = Map.empty\<rparr>"

definition cleanNameOf :: "string \<Rightarrow> string option" where
  \<comment> \<open>what \<open>cleanCompanyName\<close> computes for a name that is not in its cache\<close>
  "cleanNameOf name =
     (if name = [] \<or> trim name = [] then None else Some (cleanSteps (toLowerCase name)))"

definition cleanCacheOk :: "cleanNameCache \<Rightarrow> bool" where
  \<comment> \<open>every entry is what line 42 stores under its key; all caches the module can reach
      are such\<close>
  "cleanCacheOk cc = (\<forall>k v. cc k = Some v \<longrightarrow> v = cleanSteps k)"

definition isLetter :: "char \<Rightarrow> bool" where
  \<comment> \<open>the letters of the alphabet: \<open>A-Z\<close>, \<open>a-z\<close> and the Latin-1 letters\<close>
  "isLetter c = (let n = (of_char c :: nat) in
     (65 \<le> n \<and> n \<le> 90) \<or> (97 \<le> n \<and> n \<le> 122) \<or> n = 170 \<or> n = 181 \<or> n = 186
     \<or> (192 \<le> n \<and> n \<noteq> 215 \<and> n \<noteq> 247))"

definition isDigit :: "char \<Rightarrow> bool" where
  "isDigit c = (let n = (of_char c :: nat) in 48 \<le> n \<and> n \<le> 57)"

definition isCleanChar :: "char \<Rightarrow> bool" where
  \<comment> \<open>\<open>[a-z0-9_]\<close>: the word characters that lower-casing leaves\<close>
  "isCleanChar c = (let n = (of_char c :: nat) in
     (48 \<le> n \<and> n \<le> 57) \<or> n = 95 \<or> (97 \<le> n \<and> n \<le> 122))"

fun singleSpaced :: "string \<Rightarrow> bool" where
  \<comment> \<open>no two spaces side by side\<close>
  "singleSpaced [] = True"
| "singleSpaced [c] = True"
| "singleSpaced (c # d # cs) = (\<not> (c = CHR '' '' \<and> d = CHR '' '') \<and> singleSpaced (d # cs))"

definition cleanForm :: "string \<Rightarrow> bool" where
  \<comment> \<open>words over \<open>[a-z0-9_]\<close> with single spaces between them and none at the ends\<close>
  "cleanForm r =
     ((\<forall>c \<in> set r. isCleanChar c \<or> c = CHR '' '') \<and> singleSpaced r
      \<and> (r = [] \<or> (hd r \<noteq> CHR '' '' \<and> last r \<noteq> CHR '' '')))"

fun runsFrom :: "string \<Rightarrow> string \<Rightarrow> string list" where
  \<comment> \<open>the maximal runs of \<open>\w\<close> characters of a text, in order; \<open>cur\<close> holds, backwards,
      the run that the text continues\<close>
  "runsFrom cur [] = (if cur = [] then [] else [rev cur])"
| "runsFrom cur (c # cs) =
     (if isWordChar c then runsFrom (c # cur) cs
      else if cur = [] then runsFrom [] cs
      else rev cur # runsFrom [] cs)"

definition wordRuns :: "string \<Rightarrow> string list" where
  "wordRuns s = runsFrom [] s"

fun litOf :: "alt \<Rightarrow> string" where
  "litOf (Lit w) = w"
| "litOf (LitDot w) = w"

definition removableWords :: "string list" where
  \<comment> \<open>the literals of the three \<open>suffixes\<close> patterns\<close>
  "removableWords = map litOf (suffixes1 @ suffixes2 @ suffixes3)"

datatype matchRule = Verbatim | InputIsPrefix | KeyIsPrefix

fun abbrevRule :: "string \<Rightarrow> string list \<Rightarrow> matchRule option" where
  \<comment> \<open>the branch of lines 217 to 228 that sets \<open>wordMatched\<close>, if one does\<close>
  "abbrevRule inputWord [] = None"
| "abbrevRule inputWord (keyWord # rest) =
     (if length inputWord \<ge> 3 \<and> startsWith keyWord inputWord then Some InputIsPrefix
      else if length keyWord \<ge> 3 \<and> startsWith inputWord keyWord then Some KeyIsPrefix
      else abbrevRule inputWord rest)"





definition entryScore :: "string \<Rightarrow> string list \<Rightarrow> string \<Rightarrow> int option" where
  \<comment> \<open>the score that strategy 2 gives the entry with this key; \<open>None\<close> when line 183 skips it\<close>
  "entryScore cleanName inputWords key =
     (case cleanNameOf key of
        None \<Rightarrow> None
      | Some cleanKey \<Rightarrow>
          if cleanKey = [] then None else Some (candidateScore cleanName inputWords cleanKey))"

definition tickerCacheOk :: "tickerDict \<Rightarrow> (string \<times> string list \<rightharpoonup> string) \<Rightarrow> bool" where
  \<comment> \<open>every entry filed under the names of this mapping holds what the three strategies
      find in this mapping\<close>
  "tickerCacheOk tickerDict tc =
     (\<forall>cleanName v. tc (tickerCacheKey cleanName tickerDict) = Some v
        \<longrightarrow> v = fst (searchTicker emptyCleanNameCache cleanName tickerDict))"

definition cachesOk :: "tickerDict \<Rightarrow> caches \<Rightarrow> bool" where
  "cachesOk tickerDict st =
     (cleanCacheOk (cleanNameCache st) \<and> tickerCacheOk tickerDict (tickerCache st))"

fun ed :: "string \<Rightarrow> string \<Rightarrow> nat" where
  \<comment> \<open>the edit distance (insert, delete, substitute) of two texts, by recursion on their
      first characters\<close>
  "ed [] ys = length ys"
| "ed (x # xs) [] = Suc (length xs)"
| "ed (x # xs) (y # ys) =
     min (ed xs (y # ys) + 1) (min (ed (x # xs) ys + 1) (ed xs ys + (if x = y then 0 else 1)))"

fun rowTail :: "string \<Rightarrow> string \<Rightarrow> string \<Rightarrow> nat list" where
  \<comment> \<open>the distances of \<open>a\<close> to \<open>b\<close> extended by one, two, ... characters of \<open>ds\<close>:
      a matrix row behind some column, the texts read backwards\<close>
  "rowTail a b [] = []"
| "rowTail a b (d # ds) = ed a (d # b) # rowTail a (d # b) ds"

fun exactFind :: "string \<Rightarrow> tickerDict \<Rightarrow> string option" where
  \<comment> \<open>what strategy 1 finds when the clean keys are those of \<open>cleanNameOf\<close>\<close>
  "exactFind cleanName [] = None"
| "exactFind cleanName ((key, ticker) # rest) =
     (if cleanNameOf key = Some cleanName then Some ticker else exactFind cleanName rest)"

fun fuzzyBest ::
  "string \<Rightarrow> string list \<Rightarrow> string option \<Rightarrow> int \<Rightarrow> tickerDict \<Rightarrow> string option \<times> int" where
  \<comment> \<open>the loop of strategy 2 on the scores of \<open>entryScore\<close>\<close>
  "fuzzyBest cleanName inputWords bestMatch bestScore [] = (bestMatch, bestScore)"
| "fuzzyBest cleanName inputWords bestMatch bestScore ((key, ticker) # rest) =
     (case entryScore cleanName inputWords key of
        None \<Rightarrow> fuzzyBest cleanName inputWords bestMatch bestScore rest
      | Some score \<Rightarrow>
          if score > bestScore \<and> score \<ge> minThreshold
          then fuzzyBest cleanName inputWords (Some key) score rest
          else fuzzyBest cleanName inputWords bestMatch bestScore rest)"

definition searchResult :: "string \<Rightarrow> tickerDict \<Rightarrow> string" where
  \<comment> \<open>what the three strategies find for a clean name: a function of the clean name
      and the mapping alone\<close>
  "searchResult cleanName tickerDict =
     (case exactFind cleanName tickerDict of
        Some ticker \<Rightarrow> ticker
      | None \<Rightarrow>
          (case (if length (splitWs cleanName) = 1 \<and> length cleanName \<ge> 3
                 then directLoop cleanName tickerDict else None) of
             Some ticker \<Rightarrow> ticker
           | None \<Rightarrow>
               (case fuzzyBest cleanName (splitWs cleanName) None 0 tickerDict of
                  (bestMatch, bestScore) \<Rightarrow>
                    if bestMatch \<noteq> None \<and> bestMatch \<noteq> Some []
                    then lookupTicker tickerDict (the bestMatch)
                    else [])))"

section \<open>Trimming\<close>

lemma trim_Nil_iff: "trim s = [] \<longleftrightarrow> (\<forall>c \<in> set s. isSpace c)"
proof (cases "dropWhile isSpace s = []")
  case True
  then have "\<forall>c \<in> set s. isSpace c" by (simp add: dropWhile_eq_Nil_conv)
  moreover have "trim s = []" unfolding trim_def True by simp
  ultimately show ?thesis by simp
next
  case False
  then have "\<not> isSpace (hd (dropWhile isSpace s))" by (rule hd_dropWhile)
  moreover have "hd (dropWhile isSpace s) \<in> set (dropWhile isSpace s)" using False by simp
  ultimately have "\<not> (\<forall>c \<in> set (rev (dropWhile isSpace s)). isSpace c)" by auto
  then have "dropWhile isSpace (rev (dropWhile isSpace s)) \<noteq> []"
    by (simp add: dropWhile_eq_Nil_conv)
  then have "trim s \<noteq> []" unfolding trim_def rev_is_Nil_conv .
  moreover have "\<not> (\<forall>c \<in> set s. isSpace c)" using False by (simp add: dropWhile_eq_Nil_conv)
  ultimately show ?thesis by blast
qed

section \<open>The matrix of \<open>ratio\<close> computes the edit distance\<close>

lemma ed_Nil2: "ed xs [] = length xs"
  by (cases xs) auto

lemma ed_sym: "ed xs ys = ed ys xs"
proof (induction xs ys rule: ed.induct)
  case (1 ys)
  show ?case by (simp add: ed_Nil2)
next
  case (2 x xs)
  show ?case by simp
next
  case (3 x xs y ys)
  have c: "(if y = x then 0 else 1) = (if x = y then 0 else (1::nat))" by auto
  show ?case using 3 by (simp add: c min.commute min.left_commute)
qed

lemma ed_refl: "ed xs xs = 0"
  by (induction xs) auto

lemma fillRow_rowTail:
  "diag = ed a b \<Longrightarrow> left = ed (c # a) b
   \<Longrightarrow> fillRow c ds diag left (rowTail a b ds) = rowTail (c # a) b ds"
proof (induction ds arbitrary: b diag left)
  case Nil
  show ?case by simp
next
  case (Cons d ds)
  show ?case by (simp add: Let_def Cons.prems Cons.IH)
qed

lemma rowTail_Nil: "rowTail [] b ds = [Suc (length b) ..< Suc (length b + length ds)]"
  by (induction ds arbitrary: b) (simp_all del: upt_Suc add: upt_conv_Cons)

lemma levRows_rowTail:
  "levRows (Suc (length a)) cs s2 (length a # rowTail a [] s2)
     = length (rev cs @ a) # rowTail (rev cs @ a) [] s2"
proof (induction cs arbitrary: a)
  case Nil
  show ?case by simp
next
  case (Cons c cs)
  have "nextRow (Suc (length a)) c s2 (length a # rowTail a [] s2)
          = length (c # a) # rowTail (c # a) [] s2"
    by (simp add: fillRow_rowTail ed_Nil2)
  then show ?case using Cons.IH [of "c # a"] by simp
qed

lemma last_rowTail:
  "last (x # rowTail a b ds) = (if ds = [] then x else ed a (rev ds @ b))"
  by (induction ds arbitrary: x b) auto

lemma levenshtein_ed: "levenshtein s1 s2 = ed (rev s1) (rev s2)"
proof -
  have "[0 ..< Suc (length s2)] = length ([]::string) # rowTail [] [] s2"
    by (simp add: rowTail_Nil upt_conv_Cons del: upt_Suc)
  then have h: "levRows (Suc 0) s1 s2 [0 ..< Suc (length s2)]
               = length s1 # rowTail (rev s1) [] s2"
    using levRows_rowTail [of "[]" s1 s2] by simp
  have "levenshtein s1 s2 = last (levRows (Suc 0) s1 s2 [0 ..< Suc (length s2)])"
    by (simp add: levenshtein_def del: upt_Suc)
  also have "\<dots> = last (length s1 # rowTail (rev s1) [] s2)"
    by (simp only: h)
  also have "\<dots> = (if s2 = [] then length s1 else ed (rev s1) (rev s2 @ []))"
    by (rule last_rowTail)
  also have "\<dots> = ed (rev s1) (rev s2)"
    by (simp add: ed_Nil2)
  finally show ?thesis .
qed

lemma ed_le: "ed xs ys \<le> max (length xs) (length ys)"
proof (induction xs ys rule: ed.induct)
  case (1 ys)
  show ?case by simp
next
  case (2 x xs)
  show ?case by simp
next
  case (3 x xs y ys)
  have "ed (x # xs) (y # ys) \<le> ed xs ys + (if x = y then 0 else 1)" by simp
  also have "\<dots> \<le> ed xs ys + 1" by simp
  also have "\<dots> \<le> max (length xs) (length ys) + 1" using 3(3) by simp
  finally show ?case by simp
qed

lemma levenshtein_le: "levenshtein s1 s2 \<le> max (length s1) (length s2)"
  using ed_le [of "rev s1" "rev s2"] by (simp add: levenshtein_ed)

lemma scaleUp_same:
  "0 < m \<Longrightarrow> k \<le> e \<Longrightarrow> scaleUp (m * 2 ^ k) (m * 2 ^ e) (2 ^ k) = (m * 2 ^ e, 2 ^ e)"
proof (induction "e - k" arbitrary: k)
  case 0
  then have "k = e" by simp
  then show ?case using "0.prems"(1) by (subst scaleUp.simps) simp
next
  case (Suc x)
  then have lt: "k < e" by simp
  then have "(2::int) ^ k < 2 ^ e" by simp
  then have less: "m * 2 ^ k < m * 2 ^ e" using Suc.prems(1) by simp
  have pos: "0 < m * 2 ^ k" using Suc.prems(1) by simp
  have "scaleUp (m * 2 ^ k) (m * 2 ^ e) (2 ^ k)
          = scaleUp (2 * (m * 2 ^ k)) (m * 2 ^ e) (2 * 2 ^ k)"
    using less pos by (subst scaleUp.simps) simp
  also have "\<dots> = scaleUp (m * 2 ^ Suc k) (m * 2 ^ e) (2 ^ Suc k)"
    by (simp add: mult.left_commute)
  also have "\<dots> = (m * 2 ^ e, 2 ^ e)"
    using Suc.hyps(1) [of "Suc k"] Suc.hyps(2) Suc.prems(1) lt by simp
  finally show ?case .
qed

lemma two52: "(2::int) ^ 52 = 4503599627370496"
  by simp

lemma roundHalfEven_mult: "0 < m \<Longrightarrow> roundHalfEven (m * x) m = x"
  by (simp add: roundHalfEven_def)

lemma doubleDiv_one: "0 < m \<Longrightarrow> doubleDiv m m = (4503599627370496, 4503599627370496)"
proof -
  assume m: "0 < m"
  have "scaleUp (m * 2 ^ 0) (m * 2 ^ 52) (2 ^ 0) = (m * 2 ^ 52, 2 ^ 52)"
    using m by (rule scaleUp_same) simp
  then have s: "scaleUp m (m * 4503599627370496) 1 = (m * 4503599627370496, 4503599627370496)"
    by (simp only: power_0 mult_1_right two52)
  have "doubleDiv m m = (roundHalfEven (m * 4503599627370496) m, 4503599627370496)"
    unfolding doubleDiv_def s by (simp only: prod.case)
  also have "\<dots> = (4503599627370496, 4503599627370496)"
    using m by (simp only: roundHalfEven_mult)
  finally show ?thesis .
qed

lemma hundred_percent: "mathRound (doubleTimes100 (4503599627370496, 4503599627370496)) = 100"
  by code_simp

lemma roundPercent_full: "0 < m \<Longrightarrow> roundPercent m m = 100"
proof -
  assume "0 < m"
  then have "0 < int m" by simp
  then have "doubleDiv (int m) (int m) = (4503599627370496, 4503599627370496)"
    by (rule doubleDiv_one)
  then have "roundPercent m m = mathRound (doubleTimes100 (4503599627370496, 4503599627370496))"
    by (simp only: roundPercent_def)
  then show ?thesis by (simp only: hundred_percent)
qed

lemma roundPercent_boundary:
  "roundPercent 23 40 = 57 \<and> roundPercent 29 200 = 14 \<and> roundPercent 57 200 = 28
   \<and> roundPercent 113 200 = 56 \<and> roundPercent 7 8 = 88 \<and> roundPercent 1 3 = 33
   \<and> roundPercent 0 5 = 0 \<and> roundPercent 39 40 = 98 \<and> roundPercent 27 40 = 68"
  by code_simp

text \<open>
  Claim C9. \<open>ratio(a, a)\<close> is 100 for every non-empty \<open>a\<close>, and \<open>ratio(a, b)\<close> equals
  \<open>ratio(b, a)\<close> for all \<open>a\<close> and \<open>b\<close>: the entry \<open>matrix[len1][len2]\<close> is the edit
  distance, which is symmetric and 0 on equal texts.
\<close>

theorem ratio_identity_symmetry:
  "(a \<noteq> [] \<longrightarrow> ratio a a = 100) \<and> ratio a b = ratio b a"
proof
  show "a \<noteq> [] \<longrightarrow> ratio a a = 100"
    by (simp add: ratio_def Let_def levenshtein_ed ed_refl roundPercent_full)
  have "levenshtein a b = levenshtein b a"
    by (simp add: levenshtein_ed ed_sym)
  then show "ratio a b = ratio b a"
    by (auto simp: ratio_def Let_def max.commute)
qed

theorem ratio_identity_symmetry_witness:
  "''cams'' \<noteq> [] \<and> ratio ''cams'' ''cams'' = 100
   \<and> ratio ''cams'' ''camshafts'' = ratio ''camshafts'' ''cams''"
  using ratio_identity_symmetry [of "''cams''" "''camshafts''"] by simp

section \<open>The word loop\<close>



lemma abbrevRule_KeyIsPrefix_long:
  "abbrevRule w kws = Some KeyIsPrefix \<Longrightarrow> w \<notin> set kws \<Longrightarrow> length w > 3"
proof (induction kws)
  case Nil
  then show ?case by simp
next
  case (Cons k kws)
  show ?case
  proof (cases "length k \<ge> 3 \<and> startsWith w k")
    case True
    then have "take (length k) w = k" by (simp add: startsWith_def)
    then have "length (take (length k) w) = length k" by simp
    then have "length k \<le> length w" by simp
    moreover have "w \<noteq> k" using Cons.prems by auto
    then have "length k \<noteq> length w" using \<open>take (length k) w = k\<close> by auto
    ultimately show ?thesis using True by linarith
  next
    case False
    then show ?thesis using Cons by (auto split: if_splits)
  qed
qed



section \<open>The acronym guard\<close>

lemma length_toUpperChar: "1 \<le> length (toUpperChar c) \<and> length (toUpperChar c) \<le> 2"
  by (simp add: toUpperChar_def Let_def)

lemma length_toUpperCase: "length s \<le> length (toUpperCase s)"
proof (induction s)
  case Nil
  show ?case by (simp add: toUpperCase_def)
next
  case (Cons c s)
  then show ?case using length_toUpperChar [of c] by (simp add: toUpperCase_def)
qed

lemma startsWith_length: "startsWith s p \<Longrightarrow> length p \<le> length s"
proof -
  assume "startsWith s p"
  then have "length (take (length p) s) = length p" by (simp add: startsWith_def)
  then show ?thesis by simp
qed

lemma includes_str_length: "includes_str s p \<Longrightarrow> length p \<le> length s"
  by (induction s) (auto dest: startsWith_length)

lemma length_acronymOf:
  "length (qualifyingWords keyWords) < 2 \<Longrightarrow> length (acronymOf keyWords) \<le> 2"
proof -
  assume "length (qualifyingWords keyWords) < 2"
  then consider "qualifyingWords keyWords = []" | w where "qualifyingWords keyWords = [w]"
    by (cases "qualifyingWords keyWords"; cases "tl (qualifyingWords keyWords)") auto
  then show ?thesis
  proof cases
    case 1
    then show ?thesis by (simp add: acronymOf_def)
  next
    case 2
    then show ?thesis
      using length_toUpperChar [of "hd w"] by (simp add: acronymOf_def toUpperCase_def)
  qed
qed

text \<open>
  Claim C6, as amended. The condition of line 280 counts the key words, not the qualifying ones.
  With fewer than 2 key words the score is that of lines 188 to 277. With 2 key words or
  more of which fewer than 2 qualify, an acronym (of at most one key word) is still built,
  and it costs a single input word of 3 to 5 characters the 15 points of line 299; no
  other adjustment can apply.
\<close>

theorem acronym_guard:
  "(length (splitWs cleanKey) < 2 \<longrightarrow>
      candidateScore cleanName inputWords cleanKey
        = scoreSteps cleanName inputWords cleanKey (splitWs cleanKey))
   \<and> (length (qualifyingWords (splitWs cleanKey)) < 2 \<longrightarrow>
      candidateScore cleanName inputWords cleanKey
        = scoreSteps cleanName inputWords cleanKey (splitWs cleanKey)
          - (if length (splitWs cleanKey) \<ge> 2 \<and> length inputWords = 1
                \<and> length (hd inputWords) \<ge> 3 \<and> length (toUpperCase (hd inputWords)) \<le> 5
             then 15 else 0))"
proof (intro conjI impI)
  assume "length (splitWs cleanKey) < 2"
  then show "candidateScore cleanName inputWords cleanKey
        = scoreSteps cleanName inputWords cleanKey (splitWs cleanKey)"
    by (simp add: candidateScore_def acronymAdjust_def Let_def)
next
  assume q: "length (qualifyingWords (splitWs cleanKey)) < 2"
  define acr where "acr = acronymOf (splitWs cleanKey)"
  have la: "length acr \<le> 2" using q by (simp add: acr_def length_acronymOf)
  have no: "\<not> includes_str acr u \<and> \<not> startsWith acr u \<and> u \<noteq> acr" if "3 \<le> length u" for u
    using that la includes_str_length [of acr u] startsWith_length [of acr u] by auto
  have up: "3 \<le> length (toUpperCase (hd inputWords))" if "3 \<le> length (hd inputWords)"
    using that length_toUpperCase [of "hd inputWords"] by linarith
  show "candidateScore cleanName inputWords cleanKey
        = scoreSteps cleanName inputWords cleanKey (splitWs cleanKey)
          - (if length (splitWs cleanKey) \<ge> 2 \<and> length inputWords = 1
                \<and> length (hd inputWords) \<ge> 3 \<and> length (toUpperCase (hd inputWords)) \<le> 5
             then 15 else 0)"
    using no up
    by (auto simp: candidateScore_def acronymAdjust_def Let_def acr_def [symmetric])
qed

theorem acronym_guard_witness:
  "length (splitWs ''abc'') < 2
   \<and> candidateScore ''abcd'' [''abcd''] ''abc''
       = scoreSteps ''abcd'' [''abcd''] ''abc'' (splitWs ''abc'')
   \<and> length (qualifyingWords (splitWs ''ab cd'')) < 2
   \<and> candidateScore ''xyz'' [''xyz''] ''ab cd''
       = scoreSteps ''xyz'' [''xyz''] ''ab cd'' (splitWs ''ab cd'') - 15"
proof -
  have h1: "length (splitWs ''abc'') < 2" by code_simp
  have h2: "length (qualifyingWords (splitWs ''ab cd'')) < 2" by code_simp
  have e: "(if length (splitWs ''ab cd'') \<ge> 2 \<and> length [''xyz''] = 1
                \<and> length (hd [''xyz'']) \<ge> 3 \<and> length (toUpperCase (hd [''xyz''])) \<le> 5
             then 15 else 0) = (15::int)"
    by code_simp
  have a: "candidateScore ''abcd'' [''abcd''] ''abc''
       = scoreSteps ''abcd'' [''abcd''] ''abc'' (splitWs ''abc'')"
    using acronym_guard [of "''abc''" "''abcd''" "[''abcd'']"] h1 by blast
  have "candidateScore ''xyz'' [''xyz''] ''ab cd''
       = scoreSteps ''xyz'' [''xyz''] ''ab cd'' (splitWs ''ab cd'')
         - (if length (splitWs ''ab cd'') \<ge> 2 \<and> length [''xyz''] = 1
                \<and> length (hd [''xyz'']) \<ge> 3 \<and> length (toUpperCase (hd [''xyz''])) \<le> 5
             then 15 else 0)"
    using acronym_guard [of "''ab cd''" "''xyz''" "[''xyz'']"] h2 by blast
  then have b: "candidateScore ''xyz'' [''xyz''] ''ab cd''
       = scoreSteps ''xyz'' [''xyz''] ''ab cd'' (splitWs ''ab cd'') - 15"
    unfolding e .
  show ?thesis using h1 h2 a b by blast
qed

text \<open>
  The claim C6 as stated fails: the candidate \<open>ab cd\<close> has no qualifying word, and the
  input \<open>xyz\<close> still loses the 15 points of line 299.
\<close>

theorem acronym_guard_counterexample:
  "length (qualifyingWords (splitWs ''ab cd'')) < 2
   \<and> candidateScore ''xyz'' [''xyz''] ''ab cd''
       \<noteq> scoreSteps ''xyz'' [''xyz''] ''ab cd'' (splitWs ''ab cd'')"
  by code_simp

section \<open>The form of a clean name\<close>

lemma cleanCompanyName_None_iff:
  "fst (cleanCompanyName cc name) = None \<longleftrightarrow>
     (name = None \<or> (\<exists>nm. name = Some nm \<and> (nm = [] \<or> trim nm = [])))"
  by (auto simp: cleanCompanyName_def Let_def split: option.splits)

lemma cleanCompanyName_pure:
  assumes "cleanCacheOk cc"
  shows "fst (cleanCompanyName cc (Some nm)) = cleanNameOf nm"
    and "cleanCacheOk (snd (cleanCompanyName cc (Some nm)))"
  using assms
  by (auto simp: cleanCompanyName_def cleanNameOf_def cleanCacheOk_def Let_def split: option.splits)

lemma collapseWs_from_all_space:
  "\<forall>c \<in> set s. isSpace c \<Longrightarrow> \<forall>c \<in> set (collapseWs_from b s). isSpace c"
  by (induction s arbitrary: b) (auto simp: isSpace_def)

lemma isSpace_space: "isSpace (CHR '' '')"
  by (simp add: isSpace_def)

lemma isCleanChar_not_space: "isCleanChar c \<Longrightarrow> \<not> isSpace c"
  by (auto simp: isCleanChar_def isSpace_def Let_def)

lemma isWordChar_not_space: "isWordChar c \<Longrightarrow> \<not> isSpace c"
  by (auto simp: isWordChar_def isSpace_def Let_def)

lemma isCleanChar_word: "isCleanChar c \<Longrightarrow> isWordChar c"
  by (auto simp: isCleanChar_def isWordChar_def Let_def)

lemma toLowerChar_clean: "isWordChar (toLowerChar c) \<Longrightarrow> isCleanChar (toLowerChar c)"
  by (auto simp: isWordChar_def isCleanChar_def toLowerChar_def Let_def split: if_splits)

lemma set_removeAll_re: "set (removeAll_re alts before k s) \<subseteq> set s"
  by (induction alts before k s rule: removeAll_re.induct) (auto split: option.splits)

lemma set_trim: "set (trim s) \<subseteq> set s"
proof -
  have "set (trim s) = set (dropWhile isSpace (rev (dropWhile isSpace s)))"
    by (simp add: trim_def)
  also have "\<dots> \<subseteq> set (rev (dropWhile isSpace s))" by (rule set_dropWhileD [THEN subsetI])
  also have "\<dots> \<subseteq> set s" using set_dropWhileD [of _ isSpace s] by auto
  finally show ?thesis .
qed

lemma set_collapseWs_from:
  "c \<in> set (collapseWs_from b s) \<Longrightarrow> (c \<in> set s \<and> \<not> isSpace c) \<or> c = CHR '' ''"
  by (induction s arbitrary: b) (auto split: if_splits)

lemma singleSpaced_Cons:
  "singleSpaced (c # xs) =
     ((xs \<noteq> [] \<longrightarrow> \<not> (c = CHR '' '' \<and> hd xs = CHR '' '')) \<and> singleSpaced xs)"
  by (cases xs) auto

lemma collapseWs_from_head:
  "collapseWs_from True s = [] \<or> \<not> isSpace (hd (collapseWs_from True s))"
  by (induction s) auto

lemma singleSpaced_collapseWs_from: "singleSpaced (collapseWs_from b s)"
proof (induction s arbitrary: b)
  case Nil
  show ?case by simp
next
  case (Cons c s)
  show ?case
  proof (cases "isSpace c")
    case True
    have "singleSpaced (CHR '' '' # collapseWs_from True s)"
      using collapseWs_from_head [of s] Cons.IH [of True] isSpace_space
      by (auto simp: singleSpaced_Cons)
    then show ?thesis using True Cons.IH by simp
  next
    case False
    then have "c \<noteq> CHR '' ''" using isSpace_space by auto
    then show ?thesis using False Cons.IH by (simp add: singleSpaced_Cons)
  qed
qed

lemma singleSpaced_append: "singleSpaced (xs @ ys) \<Longrightarrow> singleSpaced xs \<and> singleSpaced ys"
proof (induction xs)
  case Nil
  then show ?case by simp
next
  case (Cons x xs)
  then show ?case by (cases xs) (auto simp: singleSpaced_Cons)
qed

lemma trim_decomp: "\<exists>pre post. s = pre @ trim s @ post"
proof -
  define y where "y = dropWhile isSpace s"
  have "s = takeWhile isSpace s @ y" by (simp add: y_def)
  moreover have "y = trim s @ rev (takeWhile isSpace (rev y))"
  proof -
    have "trim s @ rev (takeWhile isSpace (rev y))
            = rev (takeWhile isSpace (rev y) @ dropWhile isSpace (rev y))"
      by (simp only: rev_append trim_def y_def)
    also have "\<dots> = rev (rev y)" by (simp only: takeWhile_dropWhile_id)
    also have "\<dots> = y" by simp
    finally show ?thesis by simp
  qed
  ultimately have "s = takeWhile isSpace s @ trim s @ rev (takeWhile isSpace (rev y))"
    by simp
  then show ?thesis by blast
qed

lemma singleSpaced_trim: "singleSpaced s \<Longrightarrow> singleSpaced (trim s)"
proof -
  assume a: "singleSpaced s"
  obtain pre post where "s = pre @ trim s @ post" using trim_decomp by blast
  then have "singleSpaced (pre @ trim s @ post)" using a by simp
  then show ?thesis using singleSpaced_append by blast
qed

lemma trim_ends:
  "trim s \<noteq> [] \<Longrightarrow> \<not> isSpace (hd (trim s)) \<and> \<not> isSpace (last (trim s))"
proof -
  assume ne: "trim s \<noteq> []"
  define y where "y = dropWhile isSpace s"
  define z where "z = dropWhile isSpace (rev y)"
  have t: "trim s = rev z" by (simp add: trim_def y_def z_def)
  then have zne: "z \<noteq> []" using ne by simp
  then have l: "\<not> isSpace (hd z)" unfolding z_def by (rule hd_dropWhile)
  have "rev y = takeWhile isSpace (rev y) @ z" by (simp add: z_def)
  then have "rev (rev y) = rev (takeWhile isSpace (rev y) @ z)" by (rule arg_cong)
  then have yz: "y = rev z @ rev (takeWhile isSpace (rev y))" by simp
  then have yne: "y \<noteq> []" using zne by auto
  then have "\<not> isSpace (hd y)" unfolding y_def by (rule hd_dropWhile)
  moreover have "hd y = hd (rev z)"
  proof -
    have "hd y = hd (rev z @ rev (takeWhile isSpace (rev y)))" using yz by (rule arg_cong)
    also have "\<dots> = hd (rev z)" using zne by (simp add: hd_append)
    finally show ?thesis .
  qed
  moreover have "last (rev z) = hd z" using zne by (simp add: last_rev)
  ultimately show ?thesis using l t by simp
qed

lemma cleanSteps_form:
  assumes low: "\<forall>c \<in> set lowered. isWordChar c \<longrightarrow> isCleanChar c"
  shows "cleanForm (cleanSteps lowered)"
proof -
  define x1 where "x1 = removeSuffixes (trim lowered)"
  define x2 where "x2 = replacePunct x1"
  define x3 where "x3 = collapseWs x2"
  have r: "cleanSteps lowered = trim x3" by (simp add: cleanSteps_def x1_def x2_def x3_def)
  have s1: "set x1 \<subseteq> set lowered"
    using set_removeAll_re set_trim unfolding x1_def removeSuffixes_def by blast
  have c2: "(isCleanChar c \<or> isSpace c)" if "c \<in> set x2" for c
  proof -
    from that obtain d where d: "d \<in> set x1" and
      c: "c = (if isWordChar d \<or> isSpace d then d else CHR '' '')"
      by (auto simp: x2_def replacePunct_def)
    show ?thesis using d c s1 low isSpace_space by (auto split: if_splits)
  qed
  have c3: "isCleanChar c \<or> c = CHR '' ''" if "c \<in> set x3" for c
    using that set_collapseWs_from [of c False x2] c2 by (auto simp: x3_def collapseWs_def)
  have a: "\<forall>c \<in> set (trim x3). isCleanChar c \<or> c = CHR '' ''"
    using c3 set_trim [of x3] by blast
  have b: "singleSpaced (trim x3)"
    by (simp add: singleSpaced_trim singleSpaced_collapseWs_from x3_def collapseWs_def)
  have c: "trim x3 = [] \<or> (hd (trim x3) \<noteq> CHR '' '' \<and> last (trim x3) \<noteq> CHR '' '')"
    using trim_ends [of x3] isSpace_space by auto
  show ?thesis using a b c by (simp add: cleanForm_def r)
qed

lemma cleanNameOf_form: "cleanNameOf nm = Some r \<Longrightarrow> cleanForm r"
proof -
  assume a: "cleanNameOf nm = Some r"
  have "\<forall>c \<in> set (toLowerCase nm). isWordChar c \<longrightarrow> isCleanChar c"
    by (auto simp: toLowerCase_def toLowerChar_clean)
  then have "cleanForm (cleanSteps (toLowerCase nm))" by (rule cleanSteps_form)
  then show ?thesis using a by (auto simp: cleanNameOf_def split: if_splits)
qed

section \<open>The result of \<open>cleanCompanyName\<close>\<close>

text \<open>
  Claim C10. \<open>cleanCompanyName\<close> returns \<open>null\<close> exactly for \<open>null\<close>, the empty string and
  a string of white space; for a name with a character that is not white space it returns
  a string, and when removing the suffixes and replacing the punctuation leaves white
  space only, that string is the empty string.
\<close>

theorem cleanCompanyName_null:
  "(fst (cleanCompanyName cc name) = None \<longleftrightarrow>
      (name = None \<or> name = Some [] \<or> (\<exists>nm. name = Some nm \<and> trim nm = [])))
   \<and> (name = Some nm \<and> (\<exists>c \<in> set nm. \<not> isSpace c)
        \<longrightarrow> (\<exists>r. fst (cleanCompanyName cc name) = Some r))
   \<and> (cleanCacheOk cc \<and> name = Some nm \<and> (\<exists>c \<in> set nm. \<not> isSpace c)
        \<and> (\<forall>c \<in> set (replacePunct (removeSuffixes (trim (toLowerCase nm)))). isSpace c)
        \<longrightarrow> fst (cleanCompanyName cc name) = Some [])"
proof (intro conjI impI)
  show "fst (cleanCompanyName cc name) = None \<longleftrightarrow>
      (name = None \<or> name = Some [] \<or> (\<exists>nm. name = Some nm \<and> trim nm = []))"
    using cleanCompanyName_None_iff [of cc name] by auto
next
  assume a: "name = Some nm \<and> (\<exists>c \<in> set nm. \<not> isSpace c)"
  then have "trim nm \<noteq> []" "nm \<noteq> []" using trim_Nil_iff [of nm] by auto
  then have "fst (cleanCompanyName cc name) \<noteq> None"
    using a cleanCompanyName_None_iff [of cc name] by auto
  then show "\<exists>r. fst (cleanCompanyName cc name) = Some r" by auto
next
  assume a: "cleanCacheOk cc \<and> name = Some nm \<and> (\<exists>c \<in> set nm. \<not> isSpace c)
        \<and> (\<forall>c \<in> set (replacePunct (removeSuffixes (trim (toLowerCase nm)))). isSpace c)"
  then have t: "trim nm \<noteq> []" "nm \<noteq> []" using trim_Nil_iff [of nm] by auto
  have "\<forall>c \<in> set (collapseWs (replacePunct (removeSuffixes (trim (toLowerCase nm))))). isSpace c"
    using a collapseWs_from_all_space unfolding collapseWs_def by blast
  then have "cleanSteps (toLowerCase nm) = []"
    by (simp add: cleanSteps_def trim_Nil_iff)
  then have "cleanNameOf nm = Some []" using t by (simp add: cleanNameOf_def)
  then show "fst (cleanCompanyName cc name) = Some []"
    using a cleanCompanyName_pure(1) [of cc nm] by simp
qed

theorem cleanCompanyName_null_witness:
  "fst (cleanCompanyName emptyCleanNameCache (Some ''Ltd.'')) = Some []
   \<and> fst (cleanCompanyName emptyCleanNameCache (Some ''  '')) = None"
proof -
  have ok: "cleanCacheOk emptyCleanNameCache"
    by (simp add: cleanCacheOk_def emptyCleanNameCache_def)
  have ns: "\<exists>c \<in> set ''Ltd.''. \<not> isSpace c" by (simp add: isSpace_def)
  have al: "\<forall>c \<in> set (replacePunct (removeSuffixes (trim (toLowerCase ''Ltd.'')))). isSpace c"
    by code_simp
  have t: "trim ''  '' = []" by code_simp
  show ?thesis
    using cleanCompanyName_null [of emptyCleanNameCache "Some ''Ltd.''" "''Ltd.''"]
      cleanCompanyName_null [of emptyCleanNameCache "Some ''  ''" "''  ''"] ok ns al t
    by blast
qed

lemma runsFrom_cur: "cur \<noteq> [] \<Longrightarrow> runsFrom cur s \<noteq> []"
  by (induction s arbitrary: cur) auto

lemma runsFrom_word: "s \<noteq> [] \<Longrightarrow> isWordChar (hd s) \<Longrightarrow> runsFrom cur s \<noteq> []"
  by (cases s) (simp_all add: runsFrom_cur)

lemma runsFrom_map:
  assumes "\<And>c. isWordChar c \<Longrightarrow> f c = c" and "\<And>c. \<not> isWordChar c \<Longrightarrow> \<not> isWordChar (f c)"
  shows "runsFrom cur (map f s) = runsFrom cur s"
proof (induction s arbitrary: cur)
  case Nil
  show ?case by simp
next
  case (Cons c cs)
  show ?case
  proof (cases "isWordChar c")
    case True
    then have "f c = c" by (rule assms(1))
    then show ?thesis using True Cons.IH by simp
  next
    case False
    then have "\<not> isWordChar (f c)" by (rule assms(2))
    then show ?thesis using False Cons.IH by simp
  qed
qed

lemma runsFrom_replacePunct: "runsFrom cur (replacePunct s) = runsFrom cur s"
  unfolding replacePunct_def
proof (rule runsFrom_map)
  fix c
  show "isWordChar c \<Longrightarrow> (if isWordChar c \<or> isSpace c then c else CHR '' '') = c" by simp
  show "\<not> isWordChar c \<Longrightarrow> \<not> isWordChar (if isWordChar c \<or> isSpace c then c else CHR '' '')"
    by (simp add: isWordChar_def)
qed

lemma runsFrom_collapseWs:
  "(b \<longrightarrow> cur = []) \<Longrightarrow> runsFrom cur (collapseWs_from b s) = runsFrom cur s"
proof (induction s arbitrary: b cur)
  case Nil
  show ?case by simp
next
  case (Cons c cs)
  have sp: "\<not> isWordChar (CHR '' '')" by (simp add: isWordChar_def)
  show ?case
  proof (cases "isSpace c")
    case True
    then have nw: "\<not> isWordChar c" using isWordChar_not_space by blast
    have ih: "runsFrom [] (collapseWs_from True cs) = runsFrom [] cs"
      using Cons.IH [of True "[]"] by simp
    show ?thesis using True nw sp ih Cons.prems by (cases b) simp_all
  next
    case False
    have ih: "runsFrom cur' (collapseWs_from False cs) = runsFrom cur' cs" for cur'
      using Cons.IH [of False cur'] by simp
    show ?thesis using False ih by simp
  qed
qed

lemma runsFrom_prefix:
  "\<forall>c \<in> set pre. \<not> isWordChar c \<Longrightarrow> runsFrom [] (pre @ s) = runsFrom [] s"
  by (induction pre) auto

lemma runsFrom_nonword:
  "\<forall>c \<in> set post. \<not> isWordChar c \<Longrightarrow> runsFrom cur post = (if cur = [] then [] else [rev cur])"
  by (induction post arbitrary: cur) auto

lemma runsFrom_suffix:
  "\<forall>c \<in> set post. \<not> isWordChar c \<Longrightarrow> runsFrom cur (s @ post) = runsFrom cur s"
  by (induction s arbitrary: cur) (auto simp: runsFrom_nonword)

lemma trim_decomp_spaces:
  "\<exists>pre post. s = pre @ trim s @ post \<and> (\<forall>c \<in> set pre. isSpace c) \<and> (\<forall>c \<in> set post. isSpace c)"
proof -
  define y where "y = dropWhile isSpace s"
  have 1: "s = takeWhile isSpace s @ y" by (simp add: y_def)
  have 2: "y = trim s @ rev (takeWhile isSpace (rev y))"
  proof -
    have "trim s @ rev (takeWhile isSpace (rev y))
            = rev (takeWhile isSpace (rev y) @ dropWhile isSpace (rev y))"
      by (simp only: rev_append trim_def y_def)
    also have "\<dots> = rev (rev y)" by (simp only: takeWhile_dropWhile_id)
    also have "\<dots> = y" by simp
    finally show ?thesis by simp
  qed
  have 3: "\<forall>c \<in> set (takeWhile isSpace s). isSpace c" by (auto dest: set_takeWhileD)
  have 4: "\<forall>c \<in> set (rev (takeWhile isSpace (rev y))). isSpace c" by (auto dest: set_takeWhileD)
  from 1 2 have "s = takeWhile isSpace s @ trim s @ rev (takeWhile isSpace (rev y))" by simp
  then show ?thesis using 3 4 by blast
qed

lemma wordRuns_trim: "wordRuns (trim s) = wordRuns s"
proof -
  obtain pre post where d: "s = pre @ trim s @ post"
    and p: "\<forall>c \<in> set pre. isSpace c" and q: "\<forall>c \<in> set post. isSpace c"
    using trim_decomp_spaces by blast
  have p': "\<forall>c \<in> set pre. \<not> isWordChar c" using p isWordChar_not_space by blast
  have q': "\<forall>c \<in> set post. \<not> isWordChar c" using q isWordChar_not_space by blast
  have "runsFrom [] (pre @ (trim s @ post)) = runsFrom [] (trim s @ post)"
    using p' by (rule runsFrom_prefix)
  also have "\<dots> = runsFrom [] (trim s)" using q' by (rule runsFrom_suffix)
  finally have "runsFrom [] (pre @ trim s @ post) = runsFrom [] (trim s)" .
  then have "runsFrom [] s = runsFrom [] (trim s)" using d by simp
  then show ?thesis by (simp add: wordRuns_def)
qed

lemma wordRuns_cleanSteps:
  "wordRuns (cleanSteps lowered) = wordRuns (removeSuffixes (trim lowered))"
proof -
  have "wordRuns (cleanSteps lowered)
          = wordRuns (collapseWs (replacePunct (removeSuffixes (trim lowered))))"
    by (simp only: cleanSteps_def wordRuns_trim)
  also have "\<dots> = wordRuns (replacePunct (removeSuffixes (trim lowered)))"
    by (simp add: wordRuns_def collapseWs_def runsFrom_collapseWs)
  also have "\<dots> = wordRuns (removeSuffixes (trim lowered))"
    by (simp add: wordRuns_def runsFrom_replacePunct)
  finally show ?thesis .
qed

lemma joinSp_Cons: "ws \<noteq> [] \<Longrightarrow> joinSp (w # ws) = w @ CHR '' '' # joinSp ws"
  by (cases ws) auto

lemma joinSp_runsFrom:
  "\<forall>c \<in> set r. isWordChar c \<or> c = CHR '' '' \<Longrightarrow> singleSpaced r
   \<Longrightarrow> r = [] \<or> last r \<noteq> CHR '' '' \<Longrightarrow> (cur = [] \<longrightarrow> r = [] \<or> hd r \<noteq> CHR '' '')
   \<Longrightarrow> joinSp (runsFrom cur r) = rev cur @ r"
proof (induction r arbitrary: cur)
  case Nil
  show ?case by simp
next
  case (Cons c cs)
  have chars: "\<forall>x \<in> set cs. isWordChar x \<or> x = CHR '' ''" using Cons.prems(1) by simp
  have ss: "singleSpaced cs" using Cons.prems(2) by (cases cs) auto
  have lst: "cs = [] \<or> last cs \<noteq> CHR '' ''" using Cons.prems(3) by (cases cs) auto
  show ?case
  proof (cases "isWordChar c")
    case True
    have "joinSp (runsFrom (c # cur) cs) = rev (c # cur) @ cs"
      using chars ss lst by (intro Cons.IH) simp_all
    then show ?thesis using True by simp
  next
    case False
    then have c: "c = CHR '' ''" using Cons.prems(1) by simp
    then have cur: "cur \<noteq> []" using Cons.prems(4) by auto
    have ne: "cs \<noteq> []" using Cons.prems(3) c by auto
    then have h: "hd cs \<noteq> CHR '' ''" using Cons.prems(2) c by (cases cs) auto
    moreover have "hd cs \<in> set cs" using ne by simp
    ultimately have w: "isWordChar (hd cs)" using chars by blast
    have r: "runsFrom [] cs \<noteq> []" using ne w by (rule runsFrom_word)
    have "joinSp (runsFrom [] cs) = rev [] @ cs"
      using chars ss lst h by (intro Cons.IH) simp_all
    then have j: "joinSp (runsFrom [] cs) = cs" by simp
    have "joinSp (rev cur # runsFrom [] cs) = rev cur @ CHR '' '' # joinSp (runsFrom [] cs)"
      using r by (rule joinSp_Cons)
    then show ?thesis using False cur j c by simp
  qed
qed

lemma joinSp_wordRuns: "cleanForm r \<Longrightarrow> joinSp (wordRuns r) = r"
proof -
  assume f: "cleanForm r"
  then have 1: "\<forall>c \<in> set r. isWordChar c \<or> c = CHR '' ''"
    using isCleanChar_word by (auto simp: cleanForm_def)
  have "joinSp (runsFrom [] r) = rev [] @ r"
    using 1 f by (intro joinSp_runsFrom) (auto simp: cleanForm_def)
  then show ?thesis by (simp add: wordRuns_def)
qed

lemma cleanNameOf_words:
  "cleanNameOf nm = Some r \<Longrightarrow> r = joinSp (wordRuns (removeSuffixes (trim (toLowerCase nm))))"
proof -
  assume a: "cleanNameOf nm = Some r"
  then have r: "r = cleanSteps (toLowerCase nm)" by (auto simp: cleanNameOf_def split: if_splits)
  have "cleanForm r" using a by (rule cleanNameOf_form)
  then have "joinSp (wordRuns r) = r" by (rule joinSp_wordRuns)
  then show ?thesis using r wordRuns_cleanSteps [of "toLowerCase nm"] by simp
qed

text \<open>
  Claim C8, as amended. A clean name consists of the characters \<open>a-z\<close>, \<open>0-9\<close>, the
  underscore and single spaces between words, none at either end: \<open>\w\<close> keeps the
  underscore, so it is not replaced by a space. Its words are the maximal runs of \<open>\w\<close>
  characters of the lower-cased, trimmed name without the suffixes, in their order: every
  other character has become a space, a run of them one space, and those at the ends
  are gone.
\<close>

theorem cleanCompanyName_form:
  "cleanCacheOk cc \<Longrightarrow> fst (cleanCompanyName cc name) = Some r \<Longrightarrow>
     cleanForm r
     \<and> (\<exists>nm. name = Some nm
           \<and> r = joinSp (wordRuns (removeSuffixes (trim (toLowerCase nm)))))"
proof -
  assume ok: "cleanCacheOk cc" and r: "fst (cleanCompanyName cc name) = Some r"
  from r obtain nm where nm: "name = Some nm"
    by (cases name) (auto simp: cleanCompanyName_def)
  then have c: "cleanNameOf nm = Some r" using ok r cleanCompanyName_pure(1) [of cc nm] by simp
  then have "cleanForm r" by (rule cleanNameOf_form)
  moreover have "r = joinSp (wordRuns (removeSuffixes (trim (toLowerCase nm))))"
    using c by (rule cleanNameOf_words)
  ultimately show ?thesis using nm by blast
qed

theorem cleanCompanyName_form_witness:
  "cleanCacheOk emptyCleanNameCache
   \<and> fst (cleanCompanyName emptyCleanNameCache (Some ''A-1 Ltd.'')) = Some ''a 1''
   \<and> wordRuns (removeSuffixes (trim (toLowerCase ''A-1 Ltd.''))) = [''a'', ''1'']
   \<and> cleanForm ''a 1''
   \<and> (\<exists>nm. Some ''A-1 Ltd.'' = Some nm
         \<and> ''a 1'' = joinSp (wordRuns (removeSuffixes (trim (toLowerCase nm)))))"
proof -
  have ok: "cleanCacheOk emptyCleanNameCache"
    by (simp add: cleanCacheOk_def emptyCleanNameCache_def)
  have r: "fst (cleanCompanyName emptyCleanNameCache (Some ''A-1 Ltd.'')) = Some ''a 1''"
    by code_simp
  have w: "wordRuns (removeSuffixes (trim (toLowerCase ''A-1 Ltd.''))) = [''a'', ''1'']"
    by code_simp
  note t = cleanCompanyName_form [OF ok r]
  show ?thesis by (rule conjI [OF ok conjI [OF r conjI [OF w t]]])
qed

text \<open>
  The claim C8 as stated fails: the underscore is neither a letter nor a digit nor white
  space, and it stays in the clean name.
\<close>

theorem cleanCompanyName_form_counterexample:
  "fst (cleanCompanyName emptyCleanNameCache (Some ''a_b'')) = Some ''a_b''
   \<and> \<not> isLetter (CHR ''_'') \<and> \<not> isDigit (CHR ''_'') \<and> \<not> isSpace (CHR ''_'')"
  by code_simp

section \<open>The sentinel check\<close>

text \<open>
  Claim C3. For an input that is empty, blank, or contains \<open>Cash\<close> or \<open>Equity\<close>,
  \<open>findTicker\<close> returns the empty string whatever the mapping and the caches are, and
  leaves both caches as they were.
\<close>

theorem findTicker_sentinel:
  "companyName = [] \<or> trim companyName = [] \<or> includes_str companyName ''Cash''
     \<or> includes_str companyName ''Equity''
   \<Longrightarrow> findTicker st companyName tickerDict = ([], st)"
  by (simp add: findTicker_def isSentinel_def)

theorem findTicker_sentinel_witness:
  "includes_str ''Equity Cash'' ''Cash''
   \<and> findTicker emptyCaches ''Equity Cash'' [(''Equity Cash'', ''EQ'')] = ([], emptyCaches)"
proof -
  have h: "includes_str ''Equity Cash'' ''Cash''" by (simp add: startsWith_def)
  then have "''Equity Cash'' = [] \<or> trim ''Equity Cash'' = [] \<or> includes_str ''Equity Cash'' ''Cash''
     \<or> includes_str ''Equity Cash'' ''Equity''" by blast
  then show ?thesis using h findTicker_sentinel by blast
qed

section \<open>A clean name without removable words is a fixed point\<close>

lemma splitWs_not_Nil: "splitWs s \<noteq> []"
  by (induction s) (auto split: list.splits)

lemma splitWs_space_hd: "isSpace c \<Longrightarrow> hd (splitWs (c # cs)) = []"
proof (induction cs arbitrary: c)
  case Nil
  then show ?case by simp
next
  case (Cons d ds)
  then show ?case by (cases "isSpace d") auto
qed

lemma splitWs_word_hd:
  "\<forall>c \<in> set w. \<not> isSpace c \<Longrightarrow> r = [] \<or> isSpace (hd r) \<Longrightarrow> hd (splitWs (w @ r)) = w"
proof (induction w)
  case Nil
  then show ?case using splitWs_space_hd [of "hd r" "tl r"] by (cases r) auto
next
  case (Cons x w)
  then have "hd (splitWs (w @ r)) = w" by simp
  then show ?case using Cons.prems splitWs_not_Nil [of "w @ r"]
    by (cases "splitWs (w @ r)") auto
qed

lemma dot_not_clean: "\<not> isWordChar (CHR ''.'') \<and> CHR ''.'' \<noteq> CHR '' ''"
  by (simp add: isWordChar_def)

lemma startsWith_decomp: "startsWith s w \<Longrightarrow> s = w @ drop (length w) s"
proof -
  assume "startsWith s w"
  then have "take (length w) s = w" by (simp add: startsWith_def)
  then have "take (length w) s @ drop (length w) s = w @ drop (length w) s" by simp
  then show ?thesis by simp
qed

lemma matchAlt_clean_word:
  assumes chars: "\<forall>c \<in> set s. isWordChar c \<or> c = CHR '' ''"
    and lit: "\<forall>c \<in> set (litOf a). isWordChar c" "litOf a \<noteq> []"
    and m: "matchAlt a s = Some n"
  shows "hd (splitWs s) = litOf a"
proof -
  define w where "w = litOf a"
  define r where "r = drop (length w) s"
  have sw: "startsWith s w" using m by (cases a) (auto simp: w_def split: if_splits)
  then have s: "s = w @ r" unfolding r_def by (rule startsWith_decomp)
  have nodot: "headOpt r \<noteq> Some (CHR ''.'')"
  proof
    assume "headOpt r = Some (CHR ''.'')"
    then have "CHR ''.'' \<in> set r" by (cases r) (auto simp: headOpt_def)
    then have "CHR ''.'' \<in> set s" using s by auto
    then show False using chars dot_not_clean by blast
  qed
  have "wordBoundary (Some (last w)) (headOpt r)"
    using m nodot by (cases a) (auto simp: w_def r_def Let_def split: if_splits)
  moreover have "isWordChar (last w)" using lit by (simp add: w_def)
  ultimately have nw: "\<not> isWordOpt (headOpt r)"
    by (simp add: wordBoundary_def isWordOpt_def)
  have "r = [] \<or> isSpace (hd r)"
  proof (cases r)
    case Nil
    then show ?thesis by simp
  next
    case (Cons x xs)
    then have "\<not> isWordChar x" using nw by (simp add: headOpt_def isWordOpt_def)
    moreover have "x \<in> set s" using s Cons by simp
    ultimately have "x = CHR '' ''" using chars by blast
    then show ?thesis using Cons isSpace_space by simp
  qed
  moreover have "\<forall>c \<in> set w. \<not> isSpace c" using lit isWordChar_not_space by (auto simp: w_def)
  ultimately have "hd (splitWs (w @ r)) = w" by (rule splitWs_word_hd [rotated])
  then show ?thesis using s by (simp add: w_def)
qed

lemma firstAlt_None: "\<forall>a \<in> set alts. matchAlt a s = None \<Longrightarrow> firstAlt alts s = None"
  by (induction alts) auto

lemma matchAlt_head: "matchAlt a (c # cs) = Some n \<Longrightarrow> litOf a \<noteq> [] \<Longrightarrow> hd (litOf a) = c"
proof -
  assume m: "matchAlt a (c # cs) = Some n" and ne: "litOf a \<noteq> []"
  have "startsWith (c # cs) (litOf a)" using m by (cases a) (auto split: if_splits)
  then have "take (length (litOf a)) (c # cs) = litOf a" by (simp add: startsWith_def)
  then show ?thesis using ne by (cases "litOf a") auto
qed

lemma removeAll_re_clean:
  assumes alts: "\<forall>a \<in> set alts. litOf a \<noteq> []
            \<and> ((\<forall>c \<in> set (litOf a). isWordChar c)
                \<or> (\<not> isWordChar (hd (litOf a)) \<and> hd (litOf a) \<noteq> CHR '' ''))"
  shows "\<forall>c \<in> set s. isWordChar c \<or> c = CHR '' '' \<Longrightarrow>
         \<forall>w \<in> set (if isWordOpt before then tl (splitWs s) else splitWs s). w \<notin> litOf ` set alts \<Longrightarrow>
         removeAll_re alts before 0 s = s"
proof (induction s arbitrary: before)
  case Nil
  show ?case by simp
next
  case (Cons c cs)
  have chars: "\<forall>x \<in> set (c # cs). isWordChar x \<or> x = CHR '' ''" using Cons.prems(1) .
  have words: "\<forall>w \<in> set (if isWordOpt before then tl (splitWs (c # cs)) else splitWs (c # cs)).
                 w \<notin> litOf ` set alts" using Cons.prems(2) .
  have nomatch: "matchAt alts before (c # cs) = None"
  proof (cases "wordBoundary before (Some c)")
    case False
    then show ?thesis by (simp add: matchAt_def headOpt_def)
  next
    case True
    have "matchAlt a (c # cs) = None" if a: "a \<in> set alts" for a
    proof (rule ccontr)
      assume "matchAlt a (c # cs) \<noteq> None"
      then obtain n where m: "matchAlt a (c # cs) = Some n" by auto
      have ne: "litOf a \<noteq> []" using alts a by blast
      have h: "hd (litOf a) = c" using m ne by (rule matchAlt_head)
      have cw: "isWordChar c \<or> c = CHR '' ''" using chars by simp
      have allw: "\<forall>x \<in> set (litOf a). isWordChar x"
      proof (rule ccontr)
        assume "\<not> (\<forall>x \<in> set (litOf a). isWordChar x)"
        then have "\<not> isWordChar (hd (litOf a)) \<and> hd (litOf a) \<noteq> CHR '' ''" using alts a by blast
        then show False using h cw by simp
      qed
      then have "isWordChar c" using h ne by (cases "litOf a") auto
      then have "\<not> isWordOpt before" using True by (simp add: wordBoundary_def isWordOpt_def)
      then have all: "\<forall>w \<in> set (splitWs (c # cs)). w \<notin> litOf ` set alts" using words by simp
      have "hd (splitWs (c # cs)) = litOf a" using chars allw ne m by (rule matchAlt_clean_word)
      moreover have "hd (splitWs (c # cs)) \<in> set (splitWs (c # cs))"
        using splitWs_not_Nil [of "c # cs"] by simp
      ultimately show False using all a by auto
    qed
    then have "firstAlt alts (c # cs) = None" by (simp add: firstAlt_None)
    then show ?thesis by (simp add: matchAt_def)
  qed
  have chars': "\<forall>x \<in> set cs. isWordChar x \<or> x = CHR '' ''" using chars by simp
  have words': "\<forall>w \<in> set (if isWordOpt (Some c) then tl (splitWs cs) else splitWs cs).
                  w \<notin> litOf ` set alts"
  proof (cases "isWordChar c")
    case True
    then have ns: "\<not> isSpace c" by (rule isWordChar_not_space)
    obtain w0 ws where sp: "splitWs cs = w0 # ws"
      using splitWs_not_Nil [of cs] by (cases "splitWs cs") auto
    then have full: "splitWs (c # cs) = (c # w0) # ws" using ns by simp
    have "\<forall>w \<in> set ws. w \<notin> litOf ` set alts"
      using words full by (cases "isWordOpt before") auto
    then show ?thesis using True sp by (simp add: isWordOpt_def)
  next
    case False
    then have sp: "c = CHR '' ''" using chars by simp
    then have isp: "isSpace c" using isSpace_space by simp
    have e: "[] \<notin> litOf ` set alts" using alts by auto
    have "\<forall>w \<in> set (splitWs cs). w \<notin> litOf ` set alts"
    proof (cases "cs \<noteq> [] \<and> isSpace (hd cs)")
      case True
      then have full: "splitWs (c # cs) = splitWs cs" using isp by simp
      have "hd (splitWs cs) = []" using True splitWs_space_hd [of "hd cs" "tl cs"] by simp
      then have "splitWs cs = [] # tl (splitWs cs)"
        using splitWs_not_Nil [of cs] by (cases "splitWs cs") auto
      then have "set (splitWs cs) = set ([] # tl (splitWs cs))" by (rule arg_cong)
      then have "set (splitWs cs) = insert [] (set (tl (splitWs cs)))" by simp
      then show ?thesis using words full e by (cases "isWordOpt before") auto
    next
      case False
      then have full: "splitWs (c # cs) = [] # splitWs cs" using isp by auto
      then show ?thesis using words by (cases "isWordOpt before") auto
    qed
    then show ?thesis using False by (simp add: isWordOpt_def)
  qed
  have "removeAll_re alts (Some c) 0 cs = cs" using chars' words' by (rule Cons.IH)
  then show ?case using nomatch by simp
qed

lemma suffixes_shape:
  "\<forall>a \<in> set (suffixes1 @ suffixes2 @ suffixes3). litOf a \<noteq> []
      \<and> ((\<forall>c \<in> set (litOf a). isWordChar c)
          \<or> (\<not> isWordChar (hd (litOf a)) \<and> hd (litOf a) \<noteq> CHR '' ''))"
  by (simp add: suffixes1_def suffixes2_def suffixes3_def isWordChar_def)

lemma removeSuffixes_clean:
  assumes chars: "\<forall>c \<in> set s. isWordChar c \<or> c = CHR '' ''"
    and words: "\<forall>w \<in> set (splitWs s). w \<notin> set removableWords"
  shows "removeSuffixes s = s"
proof -
  have w: "\<forall>w \<in> set (if isWordOpt None then tl (splitWs s) else splitWs s). w \<notin> litOf ` set alts"
    if "set alts \<subseteq> set (suffixes1 @ suffixes2 @ suffixes3)" for alts
  proof -
    have "litOf ` set alts \<subseteq> set removableWords"
      using that unfolding removableWords_def by auto
    then show ?thesis using words by (auto simp: isWordOpt_def)
  qed
  have sh: "\<forall>a \<in> set alts. litOf a \<noteq> []
      \<and> ((\<forall>c \<in> set (litOf a). isWordChar c)
          \<or> (\<not> isWordChar (hd (litOf a)) \<and> hd (litOf a) \<noteq> CHR '' ''))"
    if "set alts \<subseteq> set (suffixes1 @ suffixes2 @ suffixes3)" for alts
    using that suffixes_shape by blast
  have 1: "removeAll_re suffixes1 None 0 s = s"
    by (rule removeAll_re_clean [OF sh chars w]) auto
  have 2: "removeAll_re suffixes2 None 0 s = s"
    by (rule removeAll_re_clean [OF sh chars w]) auto
  have 3: "removeAll_re suffixes3 None 0 s = s"
    by (rule removeAll_re_clean [OF sh chars w]) auto
  show ?thesis by (simp add: removeSuffixes_def 1 2 3)
qed

lemma trim_id: "r = [] \<or> (\<not> isSpace (hd r) \<and> \<not> isSpace (last r)) \<Longrightarrow> trim r = r"
proof (cases r)
  case Nil
  then show ?thesis by (simp add: trim_def)
next
  case (Cons x xs)
  assume "r = [] \<or> (\<not> isSpace (hd r) \<and> \<not> isSpace (last r))"
  then have h: "\<not> isSpace (hd r)" and l: "\<not> isSpace (last r)" using Cons by auto
  have 1: "dropWhile isSpace r = r" using h Cons by simp
  have "r = butlast r @ [last r]" using Cons by simp
  then have "rev r = rev (butlast r @ [last r])" by (rule arg_cong)
  also have "\<dots> = last r # rev (butlast r)" by simp
  finally have e: "rev r = last r # rev (butlast r)" .
  have 2: "dropWhile isSpace (rev r) = rev r" unfolding e using l by simp
  show ?thesis by (simp add: trim_def 1 2)
qed

lemma collapseWs_from_id:
  "\<forall>c \<in> set r. isSpace c \<longrightarrow> c = CHR '' '' \<Longrightarrow> singleSpaced r
   \<Longrightarrow> (b \<longrightarrow> r = [] \<or> \<not> isSpace (hd r)) \<Longrightarrow> collapseWs_from b r = r"
proof (induction r arbitrary: b)
  case Nil
  show ?case by simp
next
  case (Cons c cs)
  have ss: "singleSpaced cs" using Cons.prems(2) by (cases cs) auto
  show ?case
  proof (cases "isSpace c")
    case True
    then have c: "c = CHR '' ''" using Cons.prems(1) by simp
    have nb: "\<not> b" using Cons.prems(3) True by auto
    have "cs = [] \<or> \<not> isSpace (hd cs)"
    proof (cases cs)
      case Nil
      then show ?thesis by simp
    next
      case (Cons d ds)
      then have "d \<noteq> CHR '' ''" using \<open>singleSpaced (c # cs)\<close> c by simp
      moreover have "isSpace d \<longrightarrow> d = CHR '' ''" using Cons.prems(1) Cons by simp
      ultimately show ?thesis using Cons by auto
    qed
    then have "collapseWs_from True cs = cs" using Cons.IH [of True] Cons.prems(1) ss by simp
    then show ?thesis using True nb c by simp
  next
    case False
    have "collapseWs_from False cs = cs" using Cons.IH [of False] Cons.prems(1) ss by simp
    then show ?thesis using False by simp
  qed
qed

lemma toLowerChar_id: "isCleanChar c \<or> c = CHR '' '' \<Longrightarrow> toLowerChar c = c"
  by (auto simp: isCleanChar_def toLowerChar_def Let_def)

lemma cleanSteps_fixed:
  assumes f: "cleanForm r" and words: "\<forall>w \<in> set (splitWs r). w \<notin> set removableWords"
  shows "toLowerCase r = r" and "trim r = r" and "cleanSteps r = r"
proof -
  have chars: "\<forall>c \<in> set r. isCleanChar c \<or> c = CHR '' ''" using f by (simp add: cleanForm_def)
  have sp: "\<forall>c \<in> set r. isSpace c \<longrightarrow> c = CHR '' ''"
    using chars isCleanChar_not_space by blast
  have wc: "\<forall>c \<in> set r. isWordChar c \<or> c = CHR '' ''"
    using chars isCleanChar_word by blast
  have ws: "\<forall>c \<in> set r. isWordChar c \<or> isSpace c"
    using wc isSpace_space by auto
  show lower: "toLowerCase r = r"
    unfolding toLowerCase_def using chars toLowerChar_id by (intro map_idI) blast
  have ends: "r = [] \<or> (\<not> isSpace (hd r) \<and> \<not> isSpace (last r))"
  proof (cases "r = []")
    case True
    then show ?thesis by simp
  next
    case False
    then have "hd r \<noteq> CHR '' ''" "last r \<noteq> CHR '' ''" using f by (simp_all add: cleanForm_def)
    moreover have "hd r \<in> set r" "last r \<in> set r" using False by simp_all
    ultimately show ?thesis using sp by blast
  qed
  then show t: "trim r = r" by (rule trim_id)
  have rs: "removeSuffixes r = r" using wc words by (rule removeSuffixes_clean)
  have rp: "replacePunct r = r"
    unfolding replacePunct_def using ws by (intro map_idI) auto
  have "singleSpaced r" using f by (simp add: cleanForm_def)
  then have cw: "collapseWs r = r"
    unfolding collapseWs_def using sp by (intro collapseWs_from_id) auto
  show "cleanSteps r = r" by (simp add: cleanSteps_def t rs rp cw)
qed

lemma emptyCleanNameCache_ok: "cleanCacheOk emptyCleanNameCache"
  by (simp add: cleanCacheOk_def emptyCleanNameCache_def)

text \<open>
  Claim C5, as amended. When the clean name of \<open>x\<close> is not empty and none of its words
  is a literal of the \<open>suffixes\<close> patterns, cleaning it again gives it back. (The claim
  fails where a removed \<open>&\<close> has joined two pieces into such a word, and where the clean
  name is empty, which \<open>cleanCompanyName\<close> answers with \<open>null\<close>.)
\<close>

theorem cleanCompanyName_fixed_point:
  assumes "cleanCacheOk cc"
    and "fst (cleanCompanyName cc (Some x)) = Some y"
    and "y \<noteq> []"
    and "\<forall>w \<in> set (splitWs y). w \<notin> set removableWords"
    and "cleanCacheOk cc'"
  shows "fst (cleanCompanyName cc' (Some y)) = Some y"
proof -
  have "cleanNameOf x = Some y" using assms(1,2) cleanCompanyName_pure(1) by simp
  then have f: "cleanForm y" by (rule cleanNameOf_form)
  have l: "toLowerCase y = y" using f assms(4) by (rule cleanSteps_fixed(1))
  have t: "trim y = y" using f assms(4) by (rule cleanSteps_fixed(2))
  have c: "cleanSteps y = y" using f assms(4) by (rule cleanSteps_fixed(3))
  have "cleanNameOf y = Some y" using assms(3) by (simp add: cleanNameOf_def l t c)
  then show ?thesis using assms(5) cleanCompanyName_pure(1) by simp
qed

theorem cleanCompanyName_fixed_point_witness:
  "fst (cleanCompanyName emptyCleanNameCache (Some ''A-1 Ltd'')) = Some ''a 1''
   \<and> fst (cleanCompanyName (snd (cleanCompanyName emptyCleanNameCache (Some ''A-1 Ltd'')))
          (Some ''a 1'')) = Some ''a 1''"
proof -
  have r: "fst (cleanCompanyName emptyCleanNameCache (Some ''A-1 Ltd'')) = Some ''a 1''"
    by code_simp
  have ne: "''a 1'' \<noteq> []" by simp
  have w: "\<forall>w \<in> set (splitWs ''a 1''). w \<notin> set removableWords" by code_simp
  have ok': "cleanCacheOk (snd (cleanCompanyName emptyCleanNameCache (Some ''A-1 Ltd'')))"
    using emptyCleanNameCache_ok by (rule cleanCompanyName_pure(2))
  note t = cleanCompanyName_fixed_point [OF emptyCleanNameCache_ok r ne w ok']
  show ?thesis by (rule conjI [OF r t])
qed

text \<open>
  The claim C5 as stated fails: \<open>c&o\<close> is cleaned to \<open>co\<close>, and \<open>co\<close> is cleaned to the
  empty string.
\<close>

theorem cleanCompanyName_fixed_point_counterexample:
  "fst (cleanCompanyName emptyCleanNameCache (Some ''c&o'')) = Some ''co''
   \<and> fst (cleanCompanyName (snd (cleanCompanyName emptyCleanNameCache (Some ''c&o'')))
          (Some ''co'')) = Some []"
  by code_simp

section \<open>The loops on consistent caches\<close>

lemma cleanCompanyName_eq:
  assumes "cleanCacheOk cc"
  obtains cc' where "cleanCompanyName cc (Some nm) = (cleanNameOf nm, cc')" "cleanCacheOk cc'"
proof -
  have "cleanCompanyName cc (Some nm)
          = (fst (cleanCompanyName cc (Some nm)), snd (cleanCompanyName cc (Some nm)))"
    by simp
  then have "cleanCompanyName cc (Some nm) = (cleanNameOf nm, snd (cleanCompanyName cc (Some nm)))"
    using cleanCompanyName_pure(1) [OF assms, of nm] by simp
  then show ?thesis using that cleanCompanyName_pure(2) [OF assms, of nm] by blast
qed

lemma exactLoop_pure:
  "cleanCacheOk cc \<Longrightarrow>
     fst (exactLoop cc cn es) = exactFind cn es \<and> cleanCacheOk (snd (exactLoop cc cn es))"
proof (induction es arbitrary: cc)
  case Nil
  then show ?case by simp
next
  case (Cons e es)
  obtain key ticker where e: "e = (key, ticker)" by (cases e)
  obtain cc' where c: "cleanCompanyName cc (Some key) = (cleanNameOf key, cc')"
    and ok: "cleanCacheOk cc'"
    using cleanCompanyName_eq [OF Cons.prems] by blast
  show ?case using Cons.IH [OF ok] ok by (simp add: e c)
qed

lemma fuzzyLoop_pure:
  "cleanCacheOk cc \<Longrightarrow>
     fst (fuzzyLoop cc cn iw b bs es) = fuzzyBest cn iw b bs es
     \<and> cleanCacheOk (snd (fuzzyLoop cc cn iw b bs es))"
proof (induction es arbitrary: cc b bs)
  case Nil
  then show ?case by simp
next
  case (Cons e es)
  obtain key ticker where e: "e = (key, ticker)" by (cases e)
  obtain cc' where c: "cleanCompanyName cc (Some key) = (cleanNameOf key, cc')"
    and ok: "cleanCacheOk cc'"
    using cleanCompanyName_eq [OF Cons.prems] by blast
  show ?case
    using Cons.IH [OF ok]
    by (cases "cleanNameOf key") (simp_all add: e c entryScore_def Let_def)
qed

lemma fuzzyBest_spec:
  "fuzzyBest cn iw b bs es = (b', bs') \<Longrightarrow>
     ((b', bs') = (b, bs)
        \<and> (\<forall>e \<in> set es. \<forall>s. entryScore cn iw (fst e) = Some s
              \<longrightarrow> \<not> (s > bs \<and> s \<ge> minThreshold)))
     \<or> (\<exists>pre k t post. es = pre @ (k, t) # post \<and> b' = Some k
          \<and> entryScore cn iw k = Some bs' \<and> bs' > bs \<and> bs' \<ge> minThreshold
          \<and> (\<forall>e \<in> set pre. \<forall>s. entryScore cn iw (fst e) = Some s \<longrightarrow> s < bs')
          \<and> (\<forall>e \<in> set post. \<forall>s. entryScore cn iw (fst e) = Some s \<longrightarrow> s \<le> bs'))"
proof (induction es arbitrary: b bs)
  case Nil
  then show ?case by simp
next
  case (Cons e es)
  obtain key ticker where e: "e = (key, ticker)" by (cases e)
  let ?late = "\<lambda>pre k t post hi. es = pre @ (k, t) # post \<and> b' = Some k
          \<and> entryScore cn iw k = Some bs' \<and> bs' > hi \<and> bs' \<ge> minThreshold
          \<and> (\<forall>e \<in> set pre. \<forall>s. entryScore cn iw (fst e) = Some s \<longrightarrow> s < bs')
          \<and> (\<forall>e \<in> set post. \<forall>s. entryScore cn iw (fst e) = Some s \<longrightarrow> s \<le> bs')"
  show ?case
  proof (cases "entryScore cn iw key")
    case None
    then have r: "fuzzyBest cn iw b bs es = (b', bs')" using Cons.prems by (simp add: e)
    from Cons.IH [OF r] show ?thesis
    proof
      assume "(b', bs') = (b, bs)
        \<and> (\<forall>e \<in> set es. \<forall>s. entryScore cn iw (fst e) = Some s
              \<longrightarrow> \<not> (s > bs \<and> s \<ge> minThreshold))"
      then show ?thesis using None by (auto simp: e)
    next
      assume "\<exists>pre k t post. ?late pre k t post bs"
      then obtain pre k t post where l: "?late pre k t post bs" by blast
      then have "e # es = (e # pre) @ (k, t) # post" by simp
      moreover have "\<forall>x \<in> set (e # pre). \<forall>s. entryScore cn iw (fst x) = Some s \<longrightarrow> s < bs'"
        using l None by (auto simp: e)
      ultimately show ?thesis using l by blast
    qed
  next
    case (Some sc)
    show ?thesis
    proof (cases "sc > bs \<and> sc \<ge> minThreshold")
      case True
      then have r: "fuzzyBest cn iw (Some key) sc es = (b', bs')"
        using Cons.prems Some by (simp add: e)
      from Cons.IH [OF r] show ?thesis
      proof
        assume a: "(b', bs') = (Some key, sc)
          \<and> (\<forall>e \<in> set es. \<forall>s. entryScore cn iw (fst e) = Some s
                \<longrightarrow> \<not> (s > sc \<and> s \<ge> minThreshold))"
        have "\<forall>x \<in> set es. \<forall>s. entryScore cn iw (fst x) = Some s \<longrightarrow> s \<le> bs'"
        proof (intro ballI allI impI)
          fix x s
          assume "x \<in> set es" "entryScore cn iw (fst x) = Some s"
          then have "\<not> (s > sc \<and> s \<ge> minThreshold)" using a by blast
          then show "s \<le> bs'" using a True by auto
        qed
        moreover have "e # es = [] @ (key, ticker) # es" by (simp add: e)
        ultimately show ?thesis using a True Some by (intro disjI2 exI [of _ "[]"] exI [of _ key] exI [of _ ticker] exI [of _ es]) auto
      next
        assume "\<exists>pre k t post. ?late pre k t post sc"
        then obtain pre k t post where l: "?late pre k t post sc" by blast
        then have "e # es = (e # pre) @ (k, t) # post" by simp
        moreover have "\<forall>x \<in> set (e # pre). \<forall>s. entryScore cn iw (fst x) = Some s \<longrightarrow> s < bs'"
          using l Some by (auto simp: e)
        moreover have "bs' > bs" using l True by auto
        ultimately show ?thesis using l by blast
      qed
    next
      case False
      then have r: "fuzzyBest cn iw b bs es = (b', bs')"
        using Cons.prems Some by (auto simp: e split: if_splits)
      from Cons.IH [OF r] show ?thesis
      proof
        assume "(b', bs') = (b, bs)
          \<and> (\<forall>e \<in> set es. \<forall>s. entryScore cn iw (fst e) = Some s
                \<longrightarrow> \<not> (s > bs \<and> s \<ge> minThreshold))"
        then show ?thesis using Some False by (auto simp: e)
      next
        assume "\<exists>pre k t post. ?late pre k t post bs"
        then obtain pre k t post where l: "?late pre k t post bs" by blast
        then have "e # es = (e # pre) @ (k, t) # post" by simp
        moreover have "sc < bs'" using l False by auto
        then have "\<forall>x \<in> set (e # pre). \<forall>s. entryScore cn iw (fst x) = Some s \<longrightarrow> s < bs'"
          using l Some by (auto simp: e)
        ultimately show ?thesis using l by blast
      qed
    qed
  qed
qed

lemma fuzzyBest_key:
  assumes "fuzzyBest cn iw None 0 es = (Some k, bs)"
  shows "\<exists>t. (k, t) \<in> set es"
proof -
  from fuzzyBest_spec [OF assms]
  obtain pre k' t post where "es = pre @ (k', t) # post" "Some k = Some k'"
    by auto
  then have "(k, t) \<in> set es" by simp
  then show ?thesis by blast
qed

lemma lookupTicker_entry:
  "distinct (map fst tickerDict) \<Longrightarrow> (k, t) \<in> set tickerDict \<Longrightarrow> lookupTicker tickerDict k = t"
  by (simp add: lookupTicker_def)

lemma fuzzyLoop_threshold:
  assumes ok: "cleanCacheOk cc"
    and r: "fst (fuzzyLoop cc cleanName inputWords None 0 tickerDict) = (bestMatch, bestScore)"
  shows "(bestMatch = None \<longrightarrow>
           (\<forall>e \<in> set tickerDict. \<forall>s. entryScore cleanName inputWords (fst e) = Some s \<longrightarrow> s < 70))
       \<and> (\<forall>key. bestMatch = Some key \<longrightarrow>
           (\<exists>pre ticker post. tickerDict = pre @ (key, ticker) # post
              \<and> entryScore cleanName inputWords key = Some bestScore \<and> 70 \<le> bestScore
              \<and> (\<forall>e \<in> set pre. \<forall>s. entryScore cleanName inputWords (fst e) = Some s
                    \<longrightarrow> s < bestScore)
              \<and> (\<forall>e \<in> set post. \<forall>s. entryScore cleanName inputWords (fst e) = Some s
                    \<longrightarrow> s \<le> bestScore)))"
proof -
  have "fuzzyBest cleanName inputWords None 0 tickerDict = (bestMatch, bestScore)"
    using fuzzyLoop_pure [OF ok] r by simp
  from fuzzyBest_spec [OF this] show ?thesis
  proof
    assume a: "(bestMatch, bestScore) = (None, 0)
        \<and> (\<forall>e \<in> set tickerDict. \<forall>s. entryScore cleanName inputWords (fst e) = Some s
              \<longrightarrow> \<not> (s > 0 \<and> s \<ge> minThreshold))"
    have "\<forall>e \<in> set tickerDict. \<forall>s. entryScore cleanName inputWords (fst e) = Some s \<longrightarrow> s < 70"
    proof (intro ballI allI impI)
      fix e s
      assume "e \<in> set tickerDict" "entryScore cleanName inputWords (fst e) = Some s"
      then have "\<not> (s > 0 \<and> s \<ge> minThreshold)" using a by blast
      then show "s < 70" by (auto simp: minThreshold_def)
    qed
    then show ?thesis using a by simp
  next
    assume "\<exists>pre k t post. tickerDict = pre @ (k, t) # post \<and> bestMatch = Some k
          \<and> entryScore cleanName inputWords k = Some bestScore \<and> bestScore > 0
          \<and> bestScore \<ge> minThreshold
          \<and> (\<forall>e \<in> set pre. \<forall>s. entryScore cleanName inputWords (fst e) = Some s
                \<longrightarrow> s < bestScore)
          \<and> (\<forall>e \<in> set post. \<forall>s. entryScore cleanName inputWords (fst e) = Some s
                \<longrightarrow> s \<le> bestScore)"
    then show ?thesis unfolding minThreshold_def by blast
  qed
qed

section \<open>\<open>findTicker\<close> on consistent caches\<close>

lemma exactFind_first:
  "\<forall>e \<in> set pre. cleanNameOf (fst e) \<noteq> Some cn \<Longrightarrow> cleanNameOf key = Some cn
   \<Longrightarrow> exactFind cn (pre @ (key, ticker) # post) = Some ticker"
  by (induction pre) auto

lemma searchTicker_pure:
  assumes "cleanCacheOk cc"
  shows "fst (searchTicker cc cn tickerDict) = searchResult cn tickerDict"
    and "cleanCacheOk (snd (searchTicker cc cn tickerDict))"
proof -
  obtain r1 cc2 where e: "exactLoop cc cn tickerDict = (r1, cc2)" by (cases "exactLoop cc cn tickerDict")
  then have r1: "r1 = exactFind cn tickerDict" and ok2: "cleanCacheOk cc2"
    using exactLoop_pure [OF assms, of cn tickerDict] by auto
  obtain bm bs cc3 where f: "fuzzyLoop cc2 cn (splitWs cn) None 0 tickerDict = ((bm, bs), cc3)"
    by (cases "fuzzyLoop cc2 cn (splitWs cn) None 0 tickerDict") auto
  then have fb: "fuzzyBest cn (splitWs cn) None 0 tickerDict = (bm, bs)" and ok3: "cleanCacheOk cc3"
    using fuzzyLoop_pure [OF ok2, of cn "splitWs cn" None 0 tickerDict] by auto
  show "fst (searchTicker cc cn tickerDict) = searchResult cn tickerDict"
    using e r1 f fb
    by (auto simp: searchTicker_def searchResult_def Let_def split: option.splits)
  show "cleanCacheOk (snd (searchTicker cc cn tickerDict))"
    using e ok2 f ok3
    by (auto simp: searchTicker_def Let_def split: option.splits)
qed

lemma findTicker_cases:
  assumes ok: "cleanCacheOk (cleanNameCache st)"
  shows "fst (findTicker st name dict) =
           (if isSentinel name then []
            else case cleanNameOf name of
              None \<Rightarrow> []
            | Some cn \<Rightarrow>
                if length cn \<le> 2 then []
                else (case tickerCache st (tickerCacheKey cn dict) of
                        Some v \<Rightarrow> v
                      | None \<Rightarrow> searchResult cn dict))
         \<and> cleanCacheOk (cleanNameCache (snd (findTicker st name dict)))
         \<and> tickerCache (snd (findTicker st name dict)) =
           (if isSentinel name then tickerCache st
            else case cleanNameOf name of
              None \<Rightarrow> tickerCache st
            | Some cn \<Rightarrow>
                if length cn \<le> 2 then tickerCache st
                else (case tickerCache st (tickerCacheKey cn dict) of
                        Some v \<Rightarrow> tickerCache st
                      | None \<Rightarrow> (tickerCache st)(tickerCacheKey cn dict \<mapsto> searchResult cn dict)))"
proof (cases "isSentinel name")
  case True
  then show ?thesis using ok by (simp add: findTicker_def)
next
  case False
  obtain cc1 where c: "cleanCompanyName (cleanNameCache st) (Some name) = (cleanNameOf name, cc1)"
    and ok1: "cleanCacheOk cc1"
    using cleanCompanyName_eq [OF ok] by blast
  show ?thesis
  proof (cases "cleanNameOf name")
    case None
    then show ?thesis using False c ok1 by (simp add: findTicker_def)
  next
    case (Some cn)
    show ?thesis
    proof (cases "length cn \<le> 2")
      case True
      then show ?thesis using False c ok1 Some by (auto simp: findTicker_def)
    next
      case long: False
      show ?thesis
      proof (cases "tickerCache st (tickerCacheKey cn dict)")
        case hit: (Some v)
        then show ?thesis using False c ok1 Some long by (auto simp: findTicker_def Let_def)
      next
        case miss: None
        obtain result cc2 where sr: "searchTicker cc1 cn dict = (result, cc2)"
          by (cases "searchTicker cc1 cn dict")
        then have "result = searchResult cn dict" "cleanCacheOk cc2"
          using searchTicker_pure [OF ok1, of cn dict] by simp_all
        then show ?thesis
          using False c Some long miss sr by (auto simp: findTicker_def Let_def)
      qed
    qed
  qed
qed

text \<open>
  Claim C1, as amended. For an input that passes the check of lines 130 and 131 and whose
  clean name is longer than 2, on caches that hold nothing else than what calls with this
  mapping have stored, \<open>findTicker\<close> returns the ticker of the first entry whose clean key
  equals the clean name, whatever the scores of strategy 2 are.
\<close>

theorem exact_match_first:
  assumes "cachesOk tickerDict st"
    and "\<not> isSentinel companyName"
    and "cleanNameOf companyName = Some cn"
    and "length cn > 2"
    and "tickerDict = pre @ (key, ticker) # post"
    and "cleanNameOf key = Some cn"
    and "\<forall>e \<in> set pre. cleanNameOf (fst e) \<noteq> Some cn"
  shows "fst (findTicker st companyName tickerDict) = ticker"
proof -
  have ok: "cleanCacheOk (cleanNameCache st)" using assms(1) by (simp add: cachesOk_def)
  have "exactFind cn tickerDict = Some ticker"
    using exactFind_first [OF assms(7) assms(6)] assms(5) by simp
  then have sr: "searchResult cn tickerDict = ticker" by (simp add: searchResult_def)
  have hit: "v = ticker" if "tickerCache st (tickerCacheKey cn tickerDict) = Some v" for v
  proof -
    have "v = fst (searchTicker emptyCleanNameCache cn tickerDict)"
      using that assms(1) by (simp add: cachesOk_def tickerCacheOk_def)
    then show ?thesis
      using searchTicker_pure(1) [OF emptyCleanNameCache_ok, of cn tickerDict] sr by simp
  qed
  show ?thesis
    using findTicker_cases [OF ok, of companyName tickerDict] assms(2,3,4) sr hit
    by (auto split: option.splits)
qed

theorem exact_match_first_witness:
  "cachesOk [(''Abc Bcd Cde'', ''Y''), (''Abc'', ''X'')] emptyCaches
   \<and> entryScore ''abc'' [''abc''] ''Abc Bcd Cde'' = Some 215
   \<and> entryScore ''abc'' [''abc''] ''Abc'' = Some 165
   \<and> fst (findTicker emptyCaches ''Abc'' [(''Abc Bcd Cde'', ''Y''), (''Abc'', ''X'')]) = ''X''"
proof -
  have ok: "cachesOk [(''Abc Bcd Cde'', ''Y''), (''Abc'', ''X'')] emptyCaches"
    by (simp add: cachesOk_def emptyCaches_def cleanCacheOk_def tickerCacheOk_def)
  have h2: "\<not> isSentinel ''Abc''" by code_simp
  have h3: "cleanNameOf ''Abc'' = Some ''abc''" by code_simp
  have h4: "length ''abc'' > 2" by simp
  have h5: "[(''Abc Bcd Cde'', ''Y''), (''Abc'', ''X'')] = [(''Abc Bcd Cde'', ''Y'')] @ (''Abc'', ''X'') # []"
    by simp
  have h7: "\<forall>e \<in> set [(''Abc Bcd Cde'', ''Y'')]. cleanNameOf (fst e) \<noteq> Some ''abc''"
    by code_simp
  have s1: "entryScore ''abc'' [''abc''] ''Abc Bcd Cde'' = Some 215" by code_simp
  have s2: "entryScore ''abc'' [''abc''] ''Abc'' = Some 165" by code_simp
  note r = exact_match_first [OF ok h2 h3 h4 h5 h3 h7]
  show ?thesis by (rule conjI [OF ok conjI [OF s1 conjI [OF s2 r]]])
qed

text \<open>
  The claim C1 as stated fails: the clean name of \<open>AB\<close> equals that of the key \<open>AB\<close>, and
  line 137 has \<open>findTicker\<close> return the empty string, the clean name being no longer
  than 2.
\<close>

theorem exact_match_first_counterexample:
  "cleanNameOf ''AB'' = Some ''ab''
   \<and> fst (cleanCompanyName emptyCleanNameCache (Some ''AB'')) = Some ''ab''
   \<and> fst (findTicker emptyCaches ''AB'' [(''AB'', ''X'')]) = []"
  by code_simp

lemma findTicker_searchResult:
  assumes "cachesOk tickerDict st"
    and "\<not> isSentinel companyName"
    and "cleanNameOf companyName = Some cn"
    and "length cn > 2"
  shows "fst (findTicker st companyName tickerDict) = searchResult cn tickerDict"
proof -
  have ok: "cleanCacheOk (cleanNameCache st)" using assms(1) by (simp add: cachesOk_def)
  have hit: "v = searchResult cn tickerDict"
    if "tickerCache st (tickerCacheKey cn tickerDict) = Some v" for v
  proof -
    have "v = fst (searchTicker emptyCleanNameCache cn tickerDict)"
      using that assms(1) by (simp add: cachesOk_def tickerCacheOk_def)
    then show ?thesis
      using searchTicker_pure(1) [OF emptyCleanNameCache_ok, of cn tickerDict] by simp
  qed
  show ?thesis
    using findTicker_cases [OF ok, of companyName tickerDict] assms(2,3,4) hit
    by (auto split: option.splits)
qed

lemma exactFind_None:
  "\<forall>e \<in> set tickerDict. cleanNameOf (fst e) \<noteq> Some cn \<Longrightarrow> exactFind cn tickerDict = None"
  by (induction tickerDict) auto

lemma map_of_first: "k \<notin> fst ` set pre \<Longrightarrow> map_of (pre @ (k, t) # post) k = Some t"
  by (induction pre) auto

lemma entryScore_key: "entryScore cn iw k = Some s \<Longrightarrow> k \<noteq> []"
  by (auto simp: entryScore_def cleanNameOf_def split: option.splits if_splits)

text \<open>
  Claim C2. Let an input pass the guards and find neither an exact match nor a direct
  one, so that strategy 2 decides. When every candidate scores below 70, \<open>findTicker\<close>
  returns the empty string. When some candidate scores 70 or more, it returns the ticker
  of an entry that scores at least 70, at least as much as every entry after it and
  strictly more than every entry before it in the order of the mapping: a score of 69 or
  less is never returned, one of exactly 70 is, and of equal best scores the earliest wins.
\<close>

theorem fuzzy_threshold:
  assumes ok: "cachesOk tickerDict st"
    and ns: "\<not> isSentinel companyName"
    and cn: "cleanNameOf companyName = Some cn"
    and len: "length cn > 2"
    and noexact: "\<forall>e \<in> set tickerDict. cleanNameOf (fst e) \<noteq> Some cn"
    and nodirect: "length (splitWs cn) = 1 \<longrightarrow> directLoop cn tickerDict = None"
  shows "((\<forall>e \<in> set tickerDict. \<forall>s. entryScore cn (splitWs cn) (fst e) = Some s \<longrightarrow> s < 70)
            \<longrightarrow> fst (findTicker st companyName tickerDict) = [])
       \<and> ((\<exists>e \<in> set tickerDict. \<exists>s. entryScore cn (splitWs cn) (fst e) = Some s \<and> 70 \<le> s)
            \<longrightarrow> (\<exists>pre key ticker post s.
                  tickerDict = pre @ (key, ticker) # post
                  \<and> fst (findTicker st companyName tickerDict) = ticker
                  \<and> entryScore cn (splitWs cn) key = Some s \<and> 70 \<le> s
                  \<and> (\<forall>e \<in> set pre. \<forall>s'. entryScore cn (splitWs cn) (fst e) = Some s'
                        \<longrightarrow> s' < s)
                  \<and> (\<forall>e \<in> set post. \<forall>s'. entryScore cn (splitWs cn) (fst e) = Some s'
                        \<longrightarrow> s' \<le> s)))"
proof -
  have res: "fst (findTicker st companyName tickerDict) = searchResult cn tickerDict"
    using ok ns cn len by (rule findTicker_searchResult)
  have ef: "exactFind cn tickerDict = None" using noexact by (rule exactFind_None)
  have dl: "(if length (splitWs cn) = 1 \<and> length cn \<ge> 3
             then directLoop cn tickerDict else None) = None"
    using nodirect by simp
  obtain bm bs where fb: "fuzzyBest cn (splitWs cn) None 0 tickerDict = (bm, bs)"
    by (cases "fuzzyBest cn (splitWs cn) None 0 tickerDict")
  have sr: "searchResult cn tickerDict
              = (if bm \<noteq> None \<and> bm \<noteq> Some [] then lookupTicker tickerDict (the bm) else [])"
    unfolding searchResult_def ef dl fb by simp
  from fuzzyBest_spec [OF fb] show ?thesis
  proof
    assume a: "(bm, bs) = (None, 0)
        \<and> (\<forall>e \<in> set tickerDict. \<forall>s. entryScore cn (splitWs cn) (fst e) = Some s
              \<longrightarrow> \<not> (s > 0 \<and> s \<ge> minThreshold))"
    then have r: "fst (findTicker st companyName tickerDict) = []" using res sr by simp
    have "\<not> (\<exists>e \<in> set tickerDict. \<exists>s. entryScore cn (splitWs cn) (fst e) = Some s \<and> 70 \<le> s)"
    proof
      assume "\<exists>e \<in> set tickerDict. \<exists>s. entryScore cn (splitWs cn) (fst e) = Some s \<and> 70 \<le> s"
      then obtain e s where "e \<in> set tickerDict" "entryScore cn (splitWs cn) (fst e) = Some s"
        and s: "70 \<le> s" by blast
      then have "\<not> (s > 0 \<and> s \<ge> minThreshold)" using a by blast
      then show False using s by (simp add: minThreshold_def)
    qed
    then show ?thesis using r by blast
  next
    assume "\<exists>pre k t post. tickerDict = pre @ (k, t) # post \<and> bm = Some k
          \<and> entryScore cn (splitWs cn) k = Some bs \<and> bs > 0 \<and> bs \<ge> minThreshold
          \<and> (\<forall>e \<in> set pre. \<forall>s. entryScore cn (splitWs cn) (fst e) = Some s \<longrightarrow> s < bs)
          \<and> (\<forall>e \<in> set post. \<forall>s. entryScore cn (splitWs cn) (fst e) = Some s \<longrightarrow> s \<le> bs)"
    then obtain pre k t post where d: "tickerDict = pre @ (k, t) # post" and bm: "bm = Some k"
      and sc: "entryScore cn (splitWs cn) k = Some bs" and th: "bs \<ge> minThreshold"
      and before: "\<forall>e \<in> set pre. \<forall>s. entryScore cn (splitWs cn) (fst e) = Some s \<longrightarrow> s < bs"
      and after: "\<forall>e \<in> set post. \<forall>s. entryScore cn (splitWs cn) (fst e) = Some s \<longrightarrow> s \<le> bs"
      by blast
    have k: "k \<noteq> []" using sc by (rule entryScore_key)
    have "k \<notin> fst ` set pre"
    proof
      assume "k \<in> fst ` set pre"
      then obtain e where "e \<in> set pre" "fst e = k" by auto
      then have "bs < bs" using before sc by blast
      then show False by simp
    qed
    then have "map_of tickerDict k = Some t" unfolding d by (rule map_of_first)
    then have "lookupTicker tickerDict k = t" by (simp add: lookupTicker_def)
    then have r: "fst (findTicker st companyName tickerDict) = t" using res sr bm k by simp
    have th70: "70 \<le> bs" using th by (simp add: minThreshold_def)
    have "\<not> (\<forall>e \<in> set tickerDict. \<forall>s. entryScore cn (splitWs cn) (fst e) = Some s \<longrightarrow> s < 70)"
    proof
      assume "\<forall>e \<in> set tickerDict. \<forall>s. entryScore cn (splitWs cn) (fst e) = Some s \<longrightarrow> s < 70"
      moreover have "(k, t) \<in> set tickerDict" using d by simp
      ultimately have "bs < 70" using sc by fastforce
      then show False using th70 by simp
    qed
    moreover have "\<exists>pre key ticker post s.
                  tickerDict = pre @ (key, ticker) # post
                  \<and> fst (findTicker st companyName tickerDict) = ticker
                  \<and> entryScore cn (splitWs cn) key = Some s \<and> 70 \<le> s
                  \<and> (\<forall>e \<in> set pre. \<forall>s'. entryScore cn (splitWs cn) (fst e) = Some s'
                        \<longrightarrow> s' < s)
                  \<and> (\<forall>e \<in> set post. \<forall>s'. entryScore cn (splitWs cn) (fst e) = Some s'
                        \<longrightarrow> s' \<le> s)"
      using d r sc th70 before after by blast
    ultimately show ?thesis by blast
  qed
qed

theorem fuzzy_threshold_witness:
  "entryScore ''acx abx'' (splitWs ''acx abx'') (fst (''Abx Bac Baxab'', ''T69'')) = Some 69
   \<and> entryScore ''acx abx'' (splitWs ''acx abx'') (fst (''Abxa Xcx'', ''T70A'')) = Some 70
   \<and> entryScore ''acx abx'' (splitWs ''acx abx'') (fst (''Abxx Acc'', ''T70B'')) = Some 70
   \<and> fst (findTicker emptyCaches ''Acx Abx''
         [(''Abx Bac Baxab'', ''T69''), (''Abxa Xcx'', ''T70A''), (''Abxx Acc'', ''T70B'')])
       = ''T70A''
   \<and> (\<exists>pre key ticker post s.
         [(''Abx Bac Baxab'', ''T69''), (''Abxa Xcx'', ''T70A''), (''Abxx Acc'', ''T70B'')]
           = pre @ (key, ticker) # post
         \<and> fst (findTicker emptyCaches ''Acx Abx''
               [(''Abx Bac Baxab'', ''T69''), (''Abxa Xcx'', ''T70A''), (''Abxx Acc'', ''T70B'')])
             = ticker
         \<and> entryScore ''acx abx'' (splitWs ''acx abx'') key = Some s \<and> 70 \<le> s
         \<and> (\<forall>e \<in> set pre. \<forall>s'. entryScore ''acx abx'' (splitWs ''acx abx'') (fst e) = Some s'
               \<longrightarrow> s' < s)
         \<and> (\<forall>e \<in> set post. \<forall>s'. entryScore ''acx abx'' (splitWs ''acx abx'') (fst e) = Some s'
               \<longrightarrow> s' \<le> s))
   \<and> entryScore ''cabcdefghi bridge adam acme'' (splitWs ''cabcdefghi bridge adam acme'')
         (fst (''cabcdxfghi zzzzzzzzzzzz adam bqidzx acme'', ''T'')) = Some 69
   \<and> fst (findTicker emptyCaches ''cabcdefghi bridge adam acme''
         [(''cabcdxfghi zzzzzzzzzzzz adam bqidzx acme'', ''T'')]) = []"
proof -
  let ?d = "[(''Abx Bac Baxab'', ''T69''), (''Abxa Xcx'', ''T70A''), (''Abxx Acc'', ''T70B'')]"
  let ?k = "''cabcdxfghi zzzzzzzzzzzz adam bqidzx acme''"
  let ?n = "''cabcdefghi bridge adam acme''"
  have ok: "cachesOk ?d emptyCaches"
    by (simp add: cachesOk_def emptyCaches_def cleanCacheOk_def tickerCacheOk_def)
  have ns: "\<not> isSentinel ''Acx Abx''" by code_simp
  have cn: "cleanNameOf ''Acx Abx'' = Some ''acx abx''" by code_simp
  have len: "length ''acx abx'' > 2" by simp
  have ne: "\<forall>e \<in> set ?d. cleanNameOf (fst e) \<noteq> Some ''acx abx''" by code_simp
  have nd: "length (splitWs ''acx abx'') = 1 \<longrightarrow> directLoop ''acx abx'' ?d = None" by code_simp
  have s69: "entryScore ''acx abx'' (splitWs ''acx abx'') (fst (''Abx Bac Baxab'', ''T69'')) = Some 69"
    by code_simp
  have s70a: "entryScore ''acx abx'' (splitWs ''acx abx'') (fst (''Abxa Xcx'', ''T70A'')) = Some 70"
    by code_simp
  have s70b: "entryScore ''acx abx'' (splitWs ''acx abx'') (fst (''Abxx Acc'', ''T70B'')) = Some 70"
    by code_simp
  have r: "fst (findTicker emptyCaches ''Acx Abx'' ?d) = ''T70A''" by code_simp
  have ex: "\<exists>e \<in> set ?d. \<exists>s. entryScore ''acx abx'' (splitWs ''acx abx'') (fst e) = Some s \<and> 70 \<le> s"
  proof (rule bexI [of _ "(''Abxa Xcx'', ''T70A'')"])
    show "\<exists>s. entryScore ''acx abx'' (splitWs ''acx abx'') (fst (''Abxa Xcx'', ''T70A'')) = Some s
            \<and> 70 \<le> s"
      by (rule exI [of _ 70]) (rule conjI [OF s70a order_refl])
    show "(''Abxa Xcx'', ''T70A'') \<in> set ?d" by simp
  qed
  note t3 = fuzzy_threshold [OF ok ns cn len ne nd, THEN conjunct2, THEN mp, OF ex]
  have ok': "cachesOk [(?k, ''T'')] emptyCaches"
    by (simp add: cachesOk_def emptyCaches_def cleanCacheOk_def tickerCacheOk_def)
  have ns': "\<not> isSentinel ?n" by code_simp
  have cn': "cleanNameOf ?n = Some ?n" by code_simp
  have len': "length ?n > 2" by simp
  have ne': "\<forall>e \<in> set [(?k, ''T'')]. cleanNameOf (fst e) \<noteq> Some ?n" by code_simp
  have nd': "length (splitWs ?n) = 1 \<longrightarrow> directLoop ?n [(?k, ''T'')] = None" by code_simp
  have b69: "entryScore ?n (splitWs ?n) (fst (?k, ''T'')) = Some 69" by code_simp
  have all: "\<forall>e \<in> set [(?k, ''T'')]. \<forall>s. entryScore ?n (splitWs ?n) (fst e) = Some s \<longrightarrow> s < 70"
  proof (intro ballI allI impI)
    fix e :: "string \<times> string" and s :: int
    assume "e \<in> set [(?k, ''T'')]"
    then have e: "e = (?k, ''T'')" by simp
    assume "entryScore ?n (splitWs ?n) (fst e) = Some s"
    then have "entryScore ?n (splitWs ?n) (fst (?k, ''T'')) = Some s" unfolding e .
    then have "Some (69::int) = Some s" unfolding b69 .
    then show "s < 70" by simp
  qed
  note t1 = fuzzy_threshold [OF ok' ns' cn' len' ne' nd', THEN conjunct1, THEN mp, OF all]
  show ?thesis
    by (rule conjI [OF s69 conjI [OF s70a conjI [OF s70b conjI [OF r conjI [OF t3 conjI [OF b69 t1]]]]]])
qed

lemma tickerCacheKey_inj: "tickerCacheKey a d = tickerCacheKey b d \<longleftrightarrow> a = b"
  by (simp add: tickerCacheKey_def)

text \<open>
  Claim C4, as amended. Call the caches consistent with a mapping when the name cache
  holds what line 42 stores and every entry of \<open>tickerCache\<close> filed under the sorted names
  of the mapping holds what the strategies find in it. The empty caches are consistent
  with every mapping; on consistent caches \<open>findTicker\<close> returns what it returns on the
  empty caches; and the caches stay consistent after a call with this mapping, and after
  a call with any mapping whose sorted list of names is another one. After a call with a
  mapping that has the same sorted list of names, however, the next call for the same
  input returns what that call returned, whatever this mapping holds.
\<close>

theorem findTicker_cache_independent:
  "cachesOk tickerDict emptyCaches
   \<and> (cachesOk tickerDict st \<longrightarrow>
        fst (findTicker st companyName tickerDict)
          = fst (findTicker emptyCaches companyName tickerDict)
        \<and> cachesOk tickerDict (snd (findTicker st companyName tickerDict))
        \<and> (\<forall>other name. sortStrings (map fst other) \<noteq> sortStrings (map fst tickerDict)
              \<longrightarrow> cachesOk tickerDict (snd (findTicker st name other))))
   \<and> (\<forall>same. cleanCacheOk (cleanNameCache st)
          \<longrightarrow> sortStrings (map fst same) = sortStrings (map fst tickerDict)
          \<longrightarrow> fst (findTicker (snd (findTicker st companyName same)) companyName tickerDict)
                = fst (findTicker st companyName same))"
proof (intro conjI impI allI)
  show e: "cachesOk tickerDict emptyCaches"
    by (simp add: cachesOk_def emptyCaches_def cleanCacheOk_def tickerCacheOk_def)
  have sr: "fst (searchTicker emptyCleanNameCache cn d) = searchResult cn d" for cn d
    using searchTicker_pure(1) [OF emptyCleanNameCache_ok] by simp
  {
    assume a: "cachesOk tickerDict st"
    then have ok: "cleanCacheOk (cleanNameCache st)" by (simp add: cachesOk_def)
    have hit: "v = searchResult cn tickerDict"
      if "tickerCache st (tickerCacheKey cn tickerDict) = Some v" for v cn
      using that a sr by (simp add: cachesOk_def tickerCacheOk_def)
    have ok0: "cleanCacheOk (cleanNameCache emptyCaches)"
      by (simp add: emptyCaches_def cleanCacheOk_def)
    have miss0: "tickerCache emptyCaches k = None" for k by (simp add: emptyCaches_def)
    show "fst (findTicker st companyName tickerDict)
          = fst (findTicker emptyCaches companyName tickerDict)"
      using findTicker_cases [OF ok, of companyName tickerDict]
        findTicker_cases [OF ok0, of companyName tickerDict] hit miss0
      by (auto split: option.splits)
    have "tickerCacheOk tickerDict (tickerCache (snd (findTicker st companyName tickerDict)))"
      unfolding tickerCacheOk_def
    proof (intro allI impI)
      fix cleanName v
      assume "tickerCache (snd (findTicker st companyName tickerDict))
                (tickerCacheKey cleanName tickerDict) = Some v"
      then have "v = searchResult cleanName tickerDict"
        using findTicker_cases [OF ok, of companyName tickerDict] hit
        by (auto simp: tickerCacheKey_inj split: option.splits if_splits)
      then show "v = fst (searchTicker emptyCleanNameCache cleanName tickerDict)"
        using sr by simp
    qed
    then show "cachesOk tickerDict (snd (findTicker st companyName tickerDict))"
      using findTicker_cases [OF ok, of companyName tickerDict] by (simp add: cachesOk_def)
    fix other :: tickerDict and name :: string
    assume d: "sortStrings (map fst other) \<noteq> sortStrings (map fst tickerDict)"
    have ne: "tickerCacheKey y tickerDict \<noteq> tickerCacheKey x other" for x y
      using d by (auto simp: tickerCacheKey_def)
    have "tickerCacheOk tickerDict (tickerCache (snd (findTicker st name other)))"
      unfolding tickerCacheOk_def
    proof (intro allI impI)
      fix cleanName v
      assume "tickerCache (snd (findTicker st name other))
                (tickerCacheKey cleanName tickerDict) = Some v"
      then have "tickerCache st (tickerCacheKey cleanName tickerDict) = Some v"
        using findTicker_cases [OF ok, of name other]
        by (auto simp: ne split: option.splits if_splits)
      then show "v = fst (searchTicker emptyCleanNameCache cleanName tickerDict)"
        using hit sr by simp
    qed
    then show "cachesOk tickerDict (snd (findTicker st name other))"
      using findTicker_cases [OF ok, of name other] by (simp add: cachesOk_def)
  }
  {
    fix same :: tickerDict
    assume ok: "cleanCacheOk (cleanNameCache st)"
      and eq: "sortStrings (map fst same) = sortStrings (map fst tickerDict)"
    have ke: "tickerCacheKey c tickerDict = tickerCacheKey c same" for c
      using eq by (simp add: tickerCacheKey_def)
    note first = findTicker_cases [OF ok, of companyName same]
    then have ok1: "cleanCacheOk (cleanNameCache (snd (findTicker st companyName same)))"
      by blast
    note second = findTicker_cases [OF ok1, of companyName tickerDict]
    show "fst (findTicker (snd (findTicker st companyName same)) companyName tickerDict)
            = fst (findTicker st companyName same)"
      using first second by (auto simp: ke split: option.splits if_splits)
  }
qed

theorem findTicker_cache_independent_witness:
  "cachesOk [(''abc'', ''A'')] emptyCaches
   \<and> cachesOk [(''abc'', ''A'')] (snd (findTicker emptyCaches ''abc'' [(''abc'', ''A'')]))
   \<and> fst (findTicker (snd (findTicker emptyCaches ''abc'' [(''abc'', ''A'')])) ''abc''
           [(''abc'', ''A'')]) = fst (findTicker emptyCaches ''abc'' [(''abc'', ''A'')])
   \<and> fst (findTicker emptyCaches ''abc'' [(''abc'', ''A'')]) = ''A''
   \<and> fst (findTicker (snd (findTicker emptyCaches ''abc'' [(''abc'', ''A'')])) ''abc''
           [(''abc'', ''B'')]) = fst (findTicker emptyCaches ''abc'' [(''abc'', ''A'')])"
proof -
  let ?a = "[(''abc'', ''A'')]"
  let ?b = "[(''abc'', ''B'')]"
  have r: "fst (findTicker emptyCaches ''abc'' ?a) = ''A''" by code_simp
  note t0 = findTicker_cache_independent [of ?a emptyCaches "''abc''"]
  note ok0 = t0 [THEN conjunct1]
  note c0 = t0 [THEN conjunct2, THEN conjunct1, THEN mp, OF ok0]
  note ok1 = c0 [THEN conjunct2, THEN conjunct1]
  note t1 = findTicker_cache_independent [of ?a "snd (findTicker emptyCaches ''abc'' ?a)" "''abc''"]
  note again = t1 [THEN conjunct2, THEN conjunct1, THEN mp, OF ok1, THEN conjunct1]
  have okc: "cleanCacheOk (cleanNameCache emptyCaches)"
    by (simp add: emptyCaches_def cleanCacheOk_def)
  have eq: "sortStrings (map fst ?a) = sortStrings (map fst ?b)" by code_simp
  note t2 = findTicker_cache_independent [of ?b emptyCaches "''abc''"]
  note other = t2 [THEN conjunct2, THEN conjunct2, THEN spec, THEN mp, OF okc, THEN mp, OF eq]
  show ?thesis by (rule conjI [OF ok0 conjI [OF ok1 conjI [OF again conjI [OF r other]]]])
qed

text \<open>
  The claim C4 as stated fails: \<open>tickerCache\<close> is keyed by the names of the mapping
  only, so after a call with a mapping that gives the same name another identifier, the
  cached identifier is returned.
\<close>

theorem findTicker_cache_independent_counterexample:
  "fst (findTicker (snd (findTicker emptyCaches ''abc'' [(''abc'', ''A'')])) ''abc''
          [(''abc'', ''B'')]) = ''A''
   \<and> fst (findTicker emptyCaches ''abc'' [(''abc'', ''B'')]) = ''B''"
  by code_simp

end
